theory Spec2Isabelle
  imports Main "HOL-Library.AList"
begin
section \<open>Data model\<close>

text \<open>
  The event-distribution core of \<^verbatim>\<open>semantic_workbench_service/service.py\<close> lives in the
  closure of \<^verbatim>\<open>init\<close>: a stop signal, the delivery queue \<^verbatim>\<open>conversation_event_queue\<close>, the
  registry \<^verbatim>\<open>conversation_sse_queues\<close> with its lock, the producer entry point
  \<^verbatim>\<open>_notify_event\<close>, the broadcaster \<^verbatim>\<open>_broadcast_conversation_events\<close>, the shutdown part of
  \<^verbatim>\<open>_lifespan\<close>, and the streaming endpoint \<^verbatim>\<open>conversation_server_sent_events\<close> with its
  generator \<^verbatim>\<open>event_generator\<close>.

  Identifiers (\<^verbatim>\<open>uuid.UUID\<close>, \<^verbatim>\<open>uuid4().hex\<close>) are strings. Python objects that are shared
  by reference (the inner dictionaries of the registry and the per-session queues) live in
  explicit heaps indexed by addresses.
\<close>

type_synonym uuid = string
type_synonym addr = nat

text \<open>
  Modelled from the spec: \<^verbatim>\<open>ConversationEvent\<close> and \<^verbatim>\<open>ConversationEventType\<close> are declared in
  \<^verbatim>\<open>workbench_model\<close>, and \<^verbatim>\<open>ConversationEventQueueItem\<close> in \<^verbatim>\<open>.event\<close>, neither of which is
  part of the sources at hand. The spec lists the fields of an event as unique id,
  conversation id, event kind (enum), correlation id, timestamp and an opaque structured
  payload; a queue item pairs an event with its audience. An enum member is represented by
  its \<^verbatim>\<open>value\<close>; the timestamp is its ISO text and the payload its JSON text.
\<close>

datatype conversation_event_type = ConversationEventType (val: string)

record conversation_event =
  ev_id :: string
  conversation_id :: uuid
  event :: conversation_event_type
  correlation_id :: string
  timestamp :: string
  data :: string

record conversation_event_queue_item =
  item_event :: conversation_event
  event_audience :: "string set"

text \<open>One constructor per logging call of the modelled code.\<close>

datatype log_record =
    IgnoringEvent uuid conversation_event_type string
  | EventEnqueued uuid conversation_event_type string
  | ForwardedToAssistants uuid conversation_event_type string
  | ForwardedToSse uuid conversation_event_type string string
  | BroadcastException
  | ClientConnected uuid
  | SseStoppingSignal uuid
  | SseStoppingConversationEnding uuid
  | ClientDisconnected uuid
  | DisconnectCheckError uuid
  | SendingEvent uuid conversation_event_type string string
  | SendError uuid

text \<open>
  The closure variables of \<^verbatim>\<open>init\<close>. An \<^verbatim>\<open>asyncio.Queue\<close> is its list of items; the
  delivery queue also carries the counter \<^verbatim>\<open>_unfinished_tasks\<close> that \<^verbatim>\<open>join\<close> waits on.
  \<^verbatim>\<open>conversation_sse_queues\<close> maps a conversation to the address of its inner dictionary;
  an inner dictionary is an insertion-ordered association list from queue id to the address
  of the session's queue.
\<close>

record state =
  stop_signal :: bool
  conversation_event_queue :: "conversation_event_queue_item list"
  unfinished_tasks :: nat
  conversation_sse_queues :: "uuid \<rightharpoonup> addr"
  dict_heap :: "addr \<Rightarrow> (string \<times> addr) list"
  queue_heap :: "addr \<Rightarrow> conversation_event list"
  next_addr :: addr
  log :: "log_record list"

definition init_state :: state where
  "init_state = \<lparr>stop_signal = False, conversation_event_queue = [], unfinished_tasks = 0,
     conversation_sse_queues = Map.empty, dict_heap = (\<lambda>_. []), queue_heap = (\<lambda>_. []),
     next_addr = 0, log = []\<rparr>"

section \<open>Ingestion gate\<close>

text \<open>
  \<^verbatim>\<open>_notify_event\<close>: with the stop signal set the item is dropped with a warning and the
  call returns; otherwise \<^verbatim>\<open>Queue.put\<close> on the unbounded queue appends the item, counts it
  as unfinished, and a debug line is written.
\<close>

definition notify_event :: "state \<Rightarrow> conversation_event_queue_item \<Rightarrow> state" where
  "notify_event s queue_item =
     (let e = item_event queue_item in
      if stop_signal s
      then s\<lparr>log := log s @ [IgnoringEvent (conversation_id e) (event e) (ev_id e)]\<rparr>
      else s\<lparr>conversation_event_queue := conversation_event_queue s @ [queue_item],
             unfinished_tasks := Suc (unfinished_tasks s),
             log := log s @ [EventEnqueued (conversation_id e) (event e) (ev_id e)]\<rparr>)"

section \<open>Subscriber registry\<close>

text \<open>
  What a streaming session keeps in its closure: the conversation, its own queue id, the
  inner dictionary \<^verbatim>\<open>queues\<close> it obtained at registration (a reference, hence an address)
  and its private channel \<^verbatim>\<open>event_queue\<close>.
\<close>

record session =
  s_conversation_id :: uuid
  queue_id :: string
  queues :: addr
  event_queue :: addr

text \<open>
  Registration, as the endpoint does it before the generator is created: a fresh
  \<^verbatim>\<open>asyncio.Queue\<close>; then, under the lock, \<^verbatim>\<open>conversation_sse_queues[conversation_id]\<close>, which
  on a \<^verbatim>\<open>defaultdict(dict)\<close> inserts a new empty dictionary when the key is missing; then
  \<^verbatim>\<open>queues[queue_id] = event_queue\<close>, which replaces the value of an existing key and
  appends a new key at the end.
\<close>

definition defaultdict_getitem :: "state \<Rightarrow> uuid \<Rightarrow> addr \<times> state" where
  "defaultdict_getitem s c =
     (case conversation_sse_queues s c of
        Some a \<Rightarrow> (a, s)
      | None \<Rightarrow> (next_addr s,
          s\<lparr>conversation_sse_queues := (conversation_sse_queues s)(c \<mapsto> next_addr s),
            dict_heap := (dict_heap s)(next_addr s := []),
            next_addr := Suc (next_addr s)\<rparr>))"

definition register :: "state \<Rightarrow> uuid \<Rightarrow> string \<Rightarrow> session \<times> state" where
  "register s c qid =
     (let s0 = s\<lparr>log := log s @ [ClientConnected c]\<rparr>;
          q = next_addr s0;
          s1 = s0\<lparr>queue_heap := (queue_heap s0)(q := []), next_addr := Suc q\<rparr>;
          (d, s2) = defaultdict_getitem s1 c;
          s3 = s2\<lparr>dict_heap := (dict_heap s2)(d := AList.update qid q (dict_heap s2 d))\<rparr>
      in (\<lparr>s_conversation_id = c, queue_id = qid, queues = d, event_queue = q\<rparr>, s3))"

text \<open>
  The \<^verbatim>\<open>finally\<close> block of \<^verbatim>\<open>event_generator\<close>: under the lock,
  \<^verbatim>\<open>queues.pop(queue_id, None)\<close> on the dictionary the session holds, and when that
  dictionary has become empty, \<^verbatim>\<open>conversation_sse_queues.pop(conversation_id, None)\<close>.
  Both are removals with a default, which do nothing for a missing key.
\<close>

definition event_generator_finally :: "state \<Rightarrow> session \<Rightarrow> state" where
  "event_generator_finally s sess =
     (let d = AList.delete (queue_id sess) (dict_heap s (queues sess));
          s1 = s\<lparr>dict_heap := (dict_heap s)(queues sess := d)\<rparr>
      in if length d = 0
         then s1\<lparr>conversation_sse_queues :=
                   (conversation_sse_queues s1)(s_conversation_id sess := None)\<rparr>
         else s1)"

text \<open>
  The value of the registry as the broadcaster reads it:
  \<^verbatim>\<open>conversation_sse_queues.get(conversation_id, {}).items()\<close>, a lookup that never inserts.
\<close>

definition subscribers :: "state \<Rightarrow> uuid \<Rightarrow> (string \<times> addr) list" where
  "subscribers s c =
     (case conversation_sse_queues s c of None \<Rightarrow> [] | Some a \<Rightarrow> dict_heap s a)"

section \<open>Broadcaster\<close>

text \<open>
  The coroutines handed to the task group: the assistant forwarder, and one
  \<^verbatim>\<open>queue.put(event)\<close> per subscriber. The forwarder belongs to the assistant controller,
  an external collaborator: how often it suspends and whether it returns or raises is an
  input of the model.
\<close>

datatype task = ForwardEventToAssistants conversation_event | QueuePut addr conversation_event

datatype outcome = Returns | Raises

type_synonym forwarder = "nat \<times> outcome"

text \<open>Lines 225 to 243: the tasks in creation order, and the debug lines written.\<close>

definition create_tasks :: "state \<Rightarrow> conversation_event_queue_item \<Rightarrow> task list \<times> log_record list" where
  "create_tasks s queue_item =
     (let e = item_event queue_item;
          for_assistants = (''assistant'' \<in> event_audience queue_item);
          for_users = (''user'' \<in> event_audience queue_item);
          items = subscribers s (conversation_id e)
      in ((if for_assistants then [ForwardEventToAssistants e] else []) @
          (if for_users then map (\<lambda>(qid, q). QueuePut q e) items else []),
          (if for_assistants
           then [ForwardedToAssistants (conversation_id e) (event e) (ev_id e)] else []) @
          (if for_users
           then map (\<lambda>(qid, q). ForwardedToSse (conversation_id e) (event e) (ev_id e) qid) items
           else [])))"

text \<open>
  \<^verbatim>\<open>asyncio.TaskGroup\<close>. Every task is scheduled when it is created and takes its first
  step, in creation order, once the block suspends in its exit. A task is \<open>Pending n\<close> while
  its coroutine has \<open>n\<close> suspensions ahead of its last step. \<^verbatim>\<open>Queue.put\<close> on an unbounded
  queue never waits: the put is done in the task's first step. When a task has failed, the
  group cancels every task that has not finished, and the block raises the failures as an
  exception group once all tasks are done.
\<close>

datatype task_state = Pending nat | Finished | Failed | Cancelled

fun is_pending :: "task \<times> task_state \<Rightarrow> bool" where
  "is_pending (t, Pending n) = True"
| "is_pending (t, st) = False"

fun is_failed :: "task \<times> task_state \<Rightarrow> bool" where
  "is_failed (t, Failed) = True"
| "is_failed (t, st) = False"

fun is_cancelled :: "task \<times> task_state \<Rightarrow> bool" where
  "is_cancelled (t, Cancelled) = True"
| "is_cancelled (t, st) = False"

fun spawn :: "forwarder \<Rightarrow> task \<Rightarrow> task \<times> task_state" where
  "spawn f (ForwardEventToAssistants e) = (ForwardEventToAssistants e, Pending (fst f))"
| "spawn f (QueuePut q e) = (QueuePut q e, Pending 0)"

fun task_step :: "forwarder \<Rightarrow> task \<times> task_state \<Rightarrow> (addr \<Rightarrow> conversation_event list) \<Rightarrow>
    (task \<times> task_state) \<times> (addr \<Rightarrow> conversation_event list)" where
  "task_step f (t, Pending (Suc n)) h = ((t, Pending n), h)"
| "task_step f (QueuePut q e, Pending 0) h = ((QueuePut q e, Finished), h(q := h q @ [e]))"
| "task_step f (ForwardEventToAssistants e, Pending 0) h =
     ((ForwardEventToAssistants e, if snd f = Raises then Failed else Finished), h)"
| "task_step f (t, st) h = ((t, st), h)"

fun run_ready :: "forwarder \<Rightarrow> (task \<times> task_state) list \<Rightarrow> (addr \<Rightarrow> conversation_event list) \<Rightarrow>
    (task \<times> task_state) list \<times> (addr \<Rightarrow> conversation_event list)" where
  "run_ready f [] h = ([], h)"
| "run_ready f (t # ts) h =
     (case task_step f t h of (t', h') \<Rightarrow>
        (case run_ready f ts h' of (ts', h'') \<Rightarrow> (t' # ts', h'')))"

fun abort :: "task \<times> task_state \<Rightarrow> task \<times> task_state" where
  "abort (t, Pending n) = (t, Cancelled)"
| "abort (t, st) = (t, st)"

fun weight :: "task \<times> task_state \<Rightarrow> nat" where
  "weight (t, Pending n) = Suc n"
| "weight (t, st) = 0"

function task_group_join :: "forwarder \<Rightarrow> (task \<times> task_state) list \<Rightarrow>
    (addr \<Rightarrow> conversation_event list) \<Rightarrow>
    (task \<times> task_state) list \<times> (addr \<Rightarrow> conversation_event list)" where
  "task_group_join f ts h =
     (if \<not> list_ex is_pending ts then (ts, h)
      else (case run_ready f ts h of (ts', h') \<Rightarrow>
              if list_ex is_failed ts' then (map abort ts', h')
              else task_group_join f ts' h'))"
  by pat_completeness auto

termination
proof (relation "measure (\<lambda>(f, ts, h). sum_list (map weight ts))", goal_cases)
  case 1
  show ?case by simp
next
  case (2 f ts h x ts')
  have step: "weight (fst (task_step g t k)) \<le> weight t \<and>
      (is_pending t \<longrightarrow> weight (fst (task_step g t k)) < weight t)" for g t k
    by (cases "(g, t, k)" rule: task_step.cases) auto
  have pass: "sum_list (map weight (fst (run_ready g us k))) \<le> sum_list (map weight us) \<and>
      (list_ex is_pending us \<longrightarrow>
         sum_list (map weight (fst (run_ready g us k))) < sum_list (map weight us))" for g us k
  proof (induction us arbitrary: k)
    case Nil
    show ?case by simp
  next
    case (Cons u us)
    obtain u' k' where u: "task_step g u k = (u', k')" by (cases "task_step g u k")
    obtain us' k'' where us: "run_ready g us k' = (us', k'')" by (cases "run_ready g us k'")
    from step [of g u k] u have 1: "weight u' \<le> weight u"
      and 2: "is_pending u \<Longrightarrow> weight u' < weight u" by auto
    from Cons.IH [of k'] us have 3: "sum_list (map weight us') \<le> sum_list (map weight us)"
      and 4: "list_ex is_pending us \<Longrightarrow> sum_list (map weight us') < sum_list (map weight us)"
      by auto
    show ?case using 1 2 3 4 by (auto simp: u us)
  qed
  from 2 pass [of f ts h] show ?case by (simp add: case_prod_beta)
qed

declare task_group_join.simps [simp del]

text \<open>
  The block \<^verbatim>\<open>async with conversation_sse_queues_lock, asyncio.TaskGroup()\<close>: the tasks are
  created, the debug lines written, and the exit of the block joins the tasks. The final
  task table is returned with the state; the block raises when a task has failed.
\<close>

definition fan_out :: "forwarder \<Rightarrow> state \<Rightarrow> conversation_event_queue_item \<Rightarrow>
    (task \<times> task_state) list \<times> state" where
  "fan_out f s queue_item =
     (case create_tasks s queue_item of (tasks, lines) \<Rightarrow>
        (case task_group_join f (map (spawn f) tasks) (queue_heap s) of (ts, h) \<Rightarrow>
           (ts, s\<lparr>queue_heap := h, log := log s @ lines\<rparr>)))"

text \<open>
  \<^verbatim>\<open>Queue.get\<close> takes the head of the delivery queue and suspends while the queue is empty
  (\<open>None\<close>). \<^verbatim>\<open>Queue.task_done\<close> raises \<^verbatim>\<open>ValueError\<close> when nothing is unfinished.
\<close>

definition queue_get :: "state \<Rightarrow> (conversation_event_queue_item \<times> state) option" where
  "queue_get s =
     (case conversation_event_queue s of
        [] \<Rightarrow> None
      | x # xs \<Rightarrow> Some (x, s\<lparr>conversation_event_queue := xs\<rparr>))"

datatype error = ValueError | ExceptionGroup

definition task_done :: "state \<Rightarrow> error + state" where
  "task_done s =
     (if unfinished_tasks s = 0 then Inl ValueError
      else Inr (s\<lparr>unfinished_tasks := unfinished_tasks s - 1\<rparr>))"

text \<open>
  The rest of one iteration of \<^verbatim>\<open>_broadcast_conversation_events\<close> once an item has been
  taken. \<open>broadcast_body\<close> is the inner \<^verbatim>\<open>try ... finally\<close>: the fan-out, whose block raises
  an exception group when a task has failed, then \<^verbatim>\<open>task_done\<close> in the \<^verbatim>\<open>finally\<close> block;
  it returns what is raised out of it. \<open>broadcast_dispatch\<close> adds the handler
  \<^verbatim>\<open>except Exception\<close> of the loop, which logs whatever was raised and lets the loop go on.
\<close>

definition task_group_exit :: "(task \<times> task_state) list \<Rightarrow> error option" where
  "task_group_exit ts = (if list_ex is_failed ts then Some ExceptionGroup else None)"

definition broadcast_body :: "forwarder \<Rightarrow> state \<Rightarrow> conversation_event_queue_item \<Rightarrow>
    error option \<times> state" where
  "broadcast_body f s queue_item =
     (case fan_out f s queue_item of (ts, s1) \<Rightarrow>
        (case task_done s1 of
           Inl err \<Rightarrow> (Some err, s1)
         | Inr s2 \<Rightarrow> (task_group_exit ts, s2)))"

definition broadcast_dispatch :: "forwarder \<Rightarrow> state \<Rightarrow> conversation_event_queue_item \<Rightarrow> state" where
  "broadcast_dispatch f s queue_item =
     (case broadcast_body f s queue_item of
        (None, s') \<Rightarrow> s'
      | (Some err, s') \<Rightarrow> s'\<lparr>log := log s' @ [BroadcastException]\<rparr>)"

text \<open>Appending an event to each of a list of channels, in order.\<close>

fun put_all :: "conversation_event \<Rightarrow> addr list \<Rightarrow> (addr \<Rightarrow> conversation_event list) \<Rightarrow>
    (addr \<Rightarrow> conversation_event list)" where
  "put_all e [] h = h"
| "put_all e (q # qs) h = put_all e qs (h(q := h q @ [e]))"

section \<open>Streaming session\<close>

text \<open>
  \<^verbatim>\<open>ServerSentEvent(id=..., event=..., data=..., retry=1000)\<close>.

  Modelled from the spec: \<^verbatim>\<open>model_dump_json(include={"timestamp", "data"})\<close> is pydantic's
  serialisation of the event class, which is not part of the sources at hand. It is taken
  as the compact JSON object of the included fields, in the order the spec lists the
  fields; strings are put between double quotes.
\<close>

record server_sent_event =
  sse_id :: string
  sse_event :: string
  sse_data :: string
  sse_retry :: nat

definition quoted :: "string \<Rightarrow> string" where
  "quoted x = CHR 0x22 # x @ [CHR 0x22]"

definition model_fields :: "conversation_event \<Rightarrow> (string \<times> string) list" where
  "model_fields e =
     [(''id'', quoted (ev_id e)),
      (''conversation_id'', quoted (conversation_id e)),
      (''event'', quoted (val (event e))),
      (''correlation_id'', quoted (correlation_id e)),
      (''timestamp'', quoted (timestamp e)),
      (''data'', data e)]"

fun join_fields :: "string list \<Rightarrow> string" where
  "join_fields [] = []"
| "join_fields [x] = x"
| "join_fields (x # y # ys) = x @ '','' @ join_fields (y # ys)"

definition model_dump_json :: "string set \<Rightarrow> conversation_event \<Rightarrow> string" where
  "model_dump_json include e =
     ''{'' @ join_fields (map (\<lambda>(k, v). quoted k @ '':'' @ v)
                (filter (\<lambda>(k, v). k \<in> include) (model_fields e))) @ ''}''"

definition to_server_sent_event :: "conversation_event \<Rightarrow> server_sent_event" where
  "to_server_sent_event conversation_event =
     \<lparr>sse_id = ev_id conversation_event,
      sse_event = val (event conversation_event),
      sse_data = model_dump_json {''timestamp'', ''data''} conversation_event,
      sse_retry = 1000\<rparr>"

text \<open>
  One turn of the loop of \<^verbatim>\<open>event_generator\<close>. The environment supplies what
  \<^verbatim>\<open>request.is_disconnected()\<close> does (returns \<^verbatim>\<open>False\<close>, returns \<^verbatim>\<open>True\<close>, raises), or throws
  into the suspended generator (cancellation, or the generator being closed), which no
  \<^verbatim>\<open>except Exception\<close> catches. The bounded wait on the private channel ends with the head
  of the channel, or with a timeout when the channel is empty.

  After an event has been taken and the debug line written, an ordinary exception may be
  raised while the record is built, or at the \<^verbatim>\<open>yield\<close> when the generator is resumed;
  whether that happens is an input as well. The handler \<^verbatim>\<open>except Exception\<close> around the
  sending logs it and the loop goes on: in the first case the event is gone and no record
  was yielded, in the second the record was yielded before the exception arrived.
\<close>

datatype probe = Connected | Disconnected | ProbeError

datatype fault = WhileBuilding | AtYield

datatype session_input = Poll probe | Faulty probe fault | Throw

datatype exit_reason = StopSignal | ConversationEnded | ClientDisconnect | Interrupted

datatype iteration = Break exit_reason | Continue | Yield server_sent_event

definition loop_turn :: "state \<Rightarrow> session \<Rightarrow> probe \<Rightarrow> fault option \<Rightarrow> iteration \<times> state" where
  "loop_turn s sess pr ft =
     (let c = s_conversation_id sess in
      if stop_signal s
      then (Break StopSignal, s\<lparr>log := log s @ [SseStoppingSignal c]\<rparr>)
      else if queue_id sess \<notin> fst ` set (dict_heap s (queues sess))
      then (Break ConversationEnded, s\<lparr>log := log s @ [SseStoppingConversationEnding c]\<rparr>)
      else if pr = Disconnected
      then (Break ClientDisconnect, s\<lparr>log := log s @ [ClientDisconnected c]\<rparr>)
      else
        (let s1 = (if pr = ProbeError then s\<lparr>log := log s @ [DisconnectCheckError c]\<rparr> else s)
         in case queue_heap s1 (event_queue sess) of
              [] \<Rightarrow> (Continue, s1)
            | e # es \<Rightarrow>
                (let s2 = s1\<lparr>queue_heap := (queue_heap s1)(event_queue sess := es),
                            log := log s1 @ [SendingEvent c (event e) (ev_id e) (queue_id sess)]\<rparr>
                 in case ft of
                      None \<Rightarrow> (Yield (to_server_sent_event e), s2)
                    | Some WhileBuilding \<Rightarrow> (Continue, s2\<lparr>log := log s2 @ [SendError c]\<rparr>)
                    | Some AtYield \<Rightarrow>
                        (Yield (to_server_sent_event e), s2\<lparr>log := log s2 @ [SendError c]\<rparr>))))"

definition session_iteration :: "state \<Rightarrow> session \<Rightarrow> session_input \<Rightarrow> iteration \<times> state" where
  "session_iteration s sess inp =
     (case inp of
        Throw \<Rightarrow> (Break Interrupted, s)
      | Poll pr \<Rightarrow> loop_turn s sess pr None
      | Faulty pr ft \<Rightarrow> loop_turn s sess pr (Some ft))"

section \<open>Shutdown and the running service\<close>

text \<open>
  The tasks of the service around the shared state: the broadcaster with the item it has
  taken and not yet finished, the live streaming sessions with what each has sent to its
  client, and the \<^verbatim>\<open>finally\<close> block of \<^verbatim>\<open>_lifespan\<close> with the statement it has reached:
  \<^verbatim>\<open>stop_signal.set()\<close>, \<^verbatim>\<open>await conversation_event_queue.join()\<close>, \<^verbatim>\<open>task.cancel()\<close> for both
  background tasks, \<^verbatim>\<open>await engine.dispose()\<close>, and \<^verbatim>\<open>asyncio.gather\<close> of the tasks under
  \<^verbatim>\<open>contextlib.suppress(asyncio.CancelledError)\<close>. The list \<open>completed\<close> is a history
  variable: the items for which \<^verbatim>\<open>task_done\<close> has been reached, in order.

  A session is registered by the endpoint before its generator has run at all; from its
  first turn on it is inside the \<^verbatim>\<open>try\<close> of the generator; and when it has left the loop it
  may have to wait, inside the \<^verbatim>\<open>finally\<close> block, for the lock of the registry. The
  broadcaster holds that lock from the moment it has taken an item until the fan-out of
  the item is over, which is as long as the item is in flight.
\<close>

datatype phase = Created | Running | Cleaning

datatype lifespan_pc =
  Yielded | StopSet | QueueJoined | TasksCancelled | EngineDisposed | TasksGathered

record sys =
  globals :: state
  inflight :: "conversation_event_queue_item option"
  sessions :: "session list"
  phase :: "addr \<Rightarrow> phase"
  sent :: "addr \<Rightarrow> server_sent_event list"
  lifespan :: lifespan_pc
  tasks_cancelled :: bool
  engine_disposed :: bool
  tasks_awaited :: bool
  completed :: "conversation_event_queue_item list"

definition init_sys :: sys where
  "init_sys = \<lparr>globals = init_state, inflight = None, sessions = [],
     phase = (\<lambda>_. Created), sent = (\<lambda>_. []),
     lifespan = Yielded, tasks_cancelled = False, engine_disposed = False,
     tasks_awaited = False, completed = []\<rparr>"

text \<open>
  One statement of the \<^verbatim>\<open>finally\<close> block of \<^verbatim>\<open>_lifespan\<close>. \<^verbatim>\<open>join\<close> returns only when
  nothing is unfinished; until then the coordinator stays where it is.
\<close>

definition lifespan_step :: "sys \<Rightarrow> sys" where
  "lifespan_step s =
     (case lifespan s of
        Yielded \<Rightarrow> s\<lparr>globals := (globals s)\<lparr>stop_signal := True\<rparr>, lifespan := StopSet\<rparr>
      | StopSet \<Rightarrow>
          if unfinished_tasks (globals s) = 0 then s\<lparr>lifespan := QueueJoined\<rparr> else s
      | QueueJoined \<Rightarrow> s\<lparr>tasks_cancelled := True, lifespan := TasksCancelled\<rparr>
      | TasksCancelled \<Rightarrow> s\<lparr>engine_disposed := True, lifespan := EngineDisposed\<rparr>
      | EngineDisposed \<Rightarrow> s\<lparr>tasks_awaited := True, lifespan := TasksGathered\<rparr>
      | TasksGathered \<Rightarrow> s)"

text \<open>
  The ways a session goes on. Its generator is gone, with or without the cleanup having
  run (\<open>end_session\<close>). The \<^verbatim>\<open>finally\<close> block is entered or resumed: with the lock free
  the two removals are done at once and the generator is gone; with the lock held the
  session waits at \<^verbatim>\<open>async with conversation_sse_queues_lock\<close> (\<open>enter_finally\<close>). A turn of
  the loop is run, and leaving the loop enters the \<^verbatim>\<open>finally\<close> block (\<open>session_turn\<close>).

  Something thrown into a generator that has not run yet ends it before the \<^verbatim>\<open>try\<close> is
  entered, so the \<^verbatim>\<open>finally\<close> block does not run; something thrown into a session that
  waits for the lock is raised at that \<^verbatim>\<open>await\<close>, inside the \<^verbatim>\<open>finally\<close> block, and the two
  removals are skipped (\<open>session_step\<close>).
\<close>

definition end_session :: "sys \<Rightarrow> addr \<Rightarrow> sys" where
  "end_session s q = s\<lparr>sessions := filter (\<lambda>x. event_queue x \<noteq> q) (sessions s)\<rparr>"

definition enter_finally :: "sys \<Rightarrow> session \<Rightarrow> sys" where
  "enter_finally s sess =
     (if inflight s = None
      then end_session (s\<lparr>globals := event_generator_finally (globals s) sess\<rparr>) (event_queue sess)
      else s\<lparr>phase := (phase s)(event_queue sess := Cleaning)\<rparr>)"

definition session_turn :: "sys \<Rightarrow> session \<Rightarrow> session_input \<Rightarrow> sys" where
  "session_turn s sess inp =
     (let q = event_queue sess in
      case session_iteration (globals s) sess inp of
        (Break r, g) \<Rightarrow> enter_finally (s\<lparr>globals := g\<rparr>) sess
      | (Continue, g) \<Rightarrow> s\<lparr>globals := g, phase := (phase s)(q := Running)\<rparr>
      | (Yield r, g) \<Rightarrow>
          s\<lparr>globals := g, phase := (phase s)(q := Running), sent := (sent s)(q := sent s q @ [r])\<rparr>)"

definition session_step :: "sys \<Rightarrow> session \<Rightarrow> session_input \<Rightarrow> sys" where
  "session_step s sess inp =
     (case phase s (event_queue sess) of
        Created \<Rightarrow> if inp = Throw then end_session s (event_queue sess) else session_turn s sess inp
      | Running \<Rightarrow> session_turn s sess inp
      | Cleaning \<Rightarrow> if inp = Throw then end_session s (event_queue sess) else enter_finally s sess)"

text \<open>
  What can happen next in the service: a producer calls \<^verbatim>\<open>_notify_event\<close>; a client
  connects and is registered under the queue id that \<^verbatim>\<open>uuid4\<close> drew; a session goes on; the
  broadcaster takes an item, or finishes the item it has taken; the shutdown block
  executes its next statement. A step that is waiting (an empty delivery queue, a join
  with unfinished items, a cancelled broadcaster, a registration or a cleanup while the
  lock is held) leaves the state as it is. The only step ruled out (\<open>None\<close>) is a queue id
  that is already registered for the conversation: \<^verbatim>\<open>uuid4\<close> is taken not to repeat itself.
\<close>

datatype action =
    Notify conversation_event_queue_item
  | Connect uuid string
  | Session addr session_input
  | BroadcastGet
  | BroadcastDispatch forwarder
  | Lifespan

definition step :: "sys \<Rightarrow> action \<Rightarrow> sys option" where
  "step s a =
     (case a of
        Notify queue_item \<Rightarrow> Some (s\<lparr>globals := notify_event (globals s) queue_item\<rparr>)
      | Connect c qid \<Rightarrow>
          if inflight s \<noteq> None then Some s
          else if qid \<in> fst ` set (subscribers (globals s) c) then None
          else (case register (globals s) c qid of (sess, g) \<Rightarrow>
                  Some (s\<lparr>globals := g, sessions := sessions s @ [sess],
                          phase := (phase s)(event_queue sess := Created)\<rparr>))
      | Session q inp \<Rightarrow>
          (case find (\<lambda>x. event_queue x = q) (sessions s) of
             None \<Rightarrow> Some s
           | Some sess \<Rightarrow> Some (session_step s sess inp))
      | BroadcastGet \<Rightarrow>
          if tasks_cancelled s \<or> inflight s \<noteq> None then Some s
          else (case queue_get (globals s) of
                  None \<Rightarrow> Some s
                | Some (queue_item, g) \<Rightarrow> Some (s\<lparr>globals := g, inflight := Some queue_item\<rparr>))
      | BroadcastDispatch f \<Rightarrow>
          if tasks_cancelled s then Some s
          else (case inflight s of
                  None \<Rightarrow> Some s
                | Some queue_item \<Rightarrow>
                    Some (s\<lparr>globals := broadcast_dispatch f (globals s) queue_item,
                            inflight := None,
                            completed := completed s @ [queue_item]\<rparr>))
      | Lifespan \<Rightarrow> Some (lifespan_step s))"

fun exec :: "action list \<Rightarrow> sys \<Rightarrow> sys option" where
  "exec [] s = Some s"
| "exec (a # as) s = (case step s a of None \<Rightarrow> None | Some s' \<Rightarrow> exec as s')"

text \<open>The items accepted and not yet finished: the one in flight, then the queue.\<close>

definition pending :: "sys \<Rightarrow> conversation_event_queue_item list" where
  "pending s =
     (case inflight s of None \<Rightarrow> [] | Some queue_item \<Rightarrow> [queue_item]) @
     conversation_event_queue (globals s)"

text \<open>The items that the producers hand in along a run, in order.\<close>

fun notified :: "action list \<Rightarrow> conversation_event_queue_item list" where
  "notified [] = []"
| "notified (Notify queue_item # as) = queue_item # notified as"
| "notified (a # as) = notified as"

text \<open>The events of a list of items that are meant for the subscribers of a conversation.\<close>

definition for_subscribers :: "uuid \<Rightarrow> conversation_event_queue_item list \<Rightarrow> conversation_event list" where
  "for_subscribers c items =
     map item_event
       (filter (\<lambda>i. ''user'' \<in> event_audience i \<and> conversation_id (item_event i) = c) items)"

section \<open>Notions used in the statements\<close>

text \<open>
  The channels an item is put on: those of the subscribers of its conversation when the
  audience contains \<^verbatim>\<open>"user"\<close>, none otherwise.
\<close>

definition targets :: "state \<Rightarrow> conversation_event_queue_item \<Rightarrow> addr list" where
  "targets s i = (if ''user'' \<in> event_audience i
     then map snd (subscribers s (conversation_id (item_event i))) else [])"



text \<open>
  The shape of the registry in every state the service reaches: an entry is a dictionary
  that is allocated, not empty and has no repeated key; no dictionary is shared by two
  conversations; every session whose generator is not gone is registered in the dictionary
  it holds, which is the entry of its conversation; a channel is registered at most once
  in the whole registry, and is allocated; the private channels of the sessions are
  different objects.
\<close>

definition registry_inv :: "(uuid \<rightharpoonup> addr) \<Rightarrow> (addr \<Rightarrow> (string \<times> addr) list) \<Rightarrow> addr \<Rightarrow>
    session list \<Rightarrow> bool" where
  "registry_inv R D N S \<longleftrightarrow>
     (\<forall>c a. R c = Some a \<longrightarrow> a < N \<and> D a \<noteq> [] \<and> distinct (map fst (D a))) \<and>
     (\<forall>c c' a. R c = Some a \<longrightarrow> R c' = Some a \<longrightarrow> c = c') \<and>
     (\<forall>x \<in> set S. R (s_conversation_id x) = Some (queues x) \<and>
         (queue_id x, event_queue x) \<in> set (D (queues x)) \<and> event_queue x < N) \<and>
     (\<forall>c a qid q c' a' qid'. R c = Some a \<longrightarrow> (qid, q) \<in> set (D a) \<longrightarrow>
         R c' = Some a' \<longrightarrow> (qid', q) \<in> set (D a') \<longrightarrow> c = c' \<and> qid = qid') \<and>
     (\<forall>c a qid q. R c = Some a \<longrightarrow> (qid, q) \<in> set (D a) \<longrightarrow> q < N) \<and>
     distinct (map event_queue S)"

definition registry_ok :: "sys \<Rightarrow> bool" where
  "registry_ok s \<longleftrightarrow>
     registry_inv (conversation_sse_queues (globals s)) (dict_heap (globals s))
       (next_addr (globals s)) (sessions s)"

text \<open>
  The delivery side in every state the service reaches: the counter of the delivery queue
  counts the pending items, and the effects of the shutdown block follow its position.
\<close>

definition shutdown_inv :: "sys \<Rightarrow> bool" where
  "shutdown_inv s \<longleftrightarrow>
     unfinished_tasks (globals s) = length (pending s) \<and>
     (stop_signal (globals s) \<longleftrightarrow> lifespan s \<noteq> Yielded) \<and>
     (tasks_cancelled s \<longleftrightarrow> lifespan s \<in> {TasksCancelled, EngineDisposed, TasksGathered}) \<and>
     (engine_disposed s \<longleftrightarrow> lifespan s \<in> {EngineDisposed, TasksGathered}) \<and>
     (tasks_awaited s \<longleftrightarrow> lifespan s = TasksGathered) \<and>
     (lifespan s \<in> {QueueJoined, TasksCancelled, EngineDisposed, TasksGathered} \<longrightarrow>
        pending s = [])"



subsection \<open>Concrete inputs\<close>

definition ex_event :: conversation_event where
  "ex_event = \<lparr>ev_id = ''e1'', conversation_id = ''c1'',
     event = ConversationEventType ''message.created'', correlation_id = ''r1'',
     timestamp = ''2024-01-01T00:00:00Z'', data = ''{}''\<rparr>"

definition ex_item :: "string set \<Rightarrow> conversation_event_queue_item" where
  "ex_item audience = \<lparr>item_event = ex_event, event_audience = audience\<rparr>"

text \<open>Two subscribers of conversation \<open>c1\<close> and one accepted item.\<close>

definition ex_state :: state where
  "ex_state = notify_event (snd (register (snd (register init_state ''c1'' ''q1'')) ''c1'' ''q2''))
     (ex_item {''assistant'', ''user''})"

text \<open>No subscriber and one accepted item for users only.\<close>

definition ex_lonely :: state where
  "ex_lonely = notify_event init_state (ex_item {''user''})"

text \<open>The first session of a fresh service, and a state in which an event waits for it.\<close>

definition ex_session :: session where
  "ex_session = \<lparr>s_conversation_id = ''c1'', queue_id = ''q1'', queues = 1, event_queue = 0\<rparr>"

definition ex_waiting :: state where
  "ex_waiting = init_state\<lparr>conversation_sse_queues := [''c1'' \<mapsto> 1],
     dict_heap := (\<lambda>_. [])(1 := [(''q1'', 0)]), queue_heap := (\<lambda>_. [])(0 := [ex_event]),
     next_addr := 2\<rparr>"

text \<open>A session that is not registered, and a state which the only session has left.\<close>

definition ex_stranger :: session where
  "ex_stranger = \<lparr>s_conversation_id = ''c1'', queue_id = ''q9'', queues = 1, event_queue = 7\<rparr>"

definition ex_left :: state where
  "ex_left = event_generator_finally (snd (register init_state ''c1'' ''q1'')) ex_session"

text \<open>
  The registry after the first session has registered and something else has then removed
  its registration from the dictionary it holds; and after something else has removed the
  entry of its conversation and a second client has connected to that conversation.
\<close>

definition ex_emptied :: state where
  "ex_emptied = (let s = snd (register init_state ''c1'' ''q1'')
     in s\<lparr>dict_heap := (dict_heap s)(1 := AList.delete ''q1'' (dict_heap s 1))\<rparr>)"

definition ex_reentered :: state where
  "ex_reentered = (let s = snd (register init_state ''c1'' ''q1'')
     in snd (register (s\<lparr>conversation_sse_queues := (conversation_sse_queues s)(''c1'' := None)\<rparr>)
          ''c1'' ''q2''))"

text \<open>Runs of the service.\<close>

definition ex_connect :: "action list" where
  "ex_connect = [Connect ''c1'' ''q1'']"

definition ex_deliver :: "action list" where
  "ex_deliver = [Notify (ex_item {''assistant'', ''user''}), BroadcastGet,
     BroadcastDispatch (1, Raises), Session 0 (Faulty ProbeError AtYield),
     Notify (ex_item {''user''}), BroadcastGet, BroadcastDispatch (0, Returns)]"




text \<open>
  A client connects and an event for it is accepted; then the shutdown block sets the stop
  signal, the broadcaster delivers the event, and the session takes its next turn.
\<close>

definition ex_late :: "action list" where
  "ex_late = [Connect ''c1'' ''q1'', Notify (ex_item {''user''}), Lifespan, BroadcastGet,
     BroadcastDispatch (0, Returns)]"

definition ex_stopped :: "action list" where
  "ex_stopped = ex_late @ [Session 0 (Poll Connected)]"

text \<open>The same without the shutdown, but with an exception while the record is built.\<close>

definition ex_send_error :: "action list" where
  "ex_send_error = [Connect ''c1'' ''q1'', Notify (ex_item {''user''}), BroadcastGet,
     BroadcastDispatch (0, Returns), Session 0 (Faulty Connected WhileBuilding)]"

text \<open>
  A client connects and its stream is ended before the generator has run. A client
  connects, its session takes a turn, and it is cancelled twice while the broadcaster is
  busy with an item: the first time in its loop, the second time while it waits for the
  lock in the \<^verbatim>\<open>finally\<close> block.
\<close>

definition ex_unstarted :: "action list" where
  "ex_unstarted = [Connect ''c1'' ''q1'', Session 0 Throw]"

definition ex_interrupted :: "action list" where
  "ex_interrupted = [Connect ''c1'' ''q1'', Session 0 (Poll Connected),
     Notify (ex_item {''assistant''}), BroadcastGet, Session 0 Throw]"

definition ex_cancelled :: "action list" where
  "ex_cancelled = ex_interrupted @ [Session 0 Throw]"

definition ex_locked :: sys where
  "ex_locked = the (exec ex_interrupted init_sys)"

definition ex_stopping :: "action list" where
  "ex_stopping = [Connect ''c1'' ''q1'', Notify (ex_item {''user''}), Lifespan]"

definition ex_drain :: "action list" where
  "ex_drain = [Notify (ex_item {''assistant''}), BroadcastGet, BroadcastDispatch (0, Returns),
     Lifespan, Lifespan]"

definition ex_t1 :: sys where
  "ex_t1 = the (exec ex_stopping init_sys)"

definition ex_t2 :: sys where
  "ex_t2 = the (exec ex_drain ex_t1)"

definition ex_shutdown :: "action list" where
  "ex_shutdown = [Lifespan, Lifespan, Lifespan, Lifespan, Lifespan]"

section \<open>Auxiliary facts\<close>

subsection \<open>The task group\<close>

text \<open>
  A table in which every task has finished is left alone by a pass and by an abort. The
  puts of a fan-out finish in the first pass; a forwarder in front of them takes as many
  passes as it has suspensions, and then returns or fails with nothing left to cancel.
\<close>

lemma run_ready_finished:
  "list_all (\<lambda>x. snd x = Finished) ps \<Longrightarrow> run_ready f ps h = (ps, h)"
  by (induction ps) (auto split: prod.splits)

lemma finished_no_pending:
  "list_all (\<lambda>x. snd x = Finished) ps \<Longrightarrow> \<not> list_ex is_pending ps"
  by (induction ps) auto

lemma finished_no_failed:
  "list_all (\<lambda>x. snd x = Finished) ps \<Longrightarrow> \<not> list_ex is_failed ps"
  by (induction ps) auto

lemma finished_abort:
  "list_all (\<lambda>x. snd x = Finished) ps \<Longrightarrow> map abort ps = ps"
  by (induction ps) auto

lemma forward_settles:
  assumes "list_all (\<lambda>x. snd x = Finished) ps"
  shows "task_group_join f ((ForwardEventToAssistants e, Pending n) # ps) h =
         ((ForwardEventToAssistants e, if snd f = Raises then Failed else Finished) # ps, h)"
proof (induction n)
  case 0
  show ?case
    using assms
    by (simp add: task_group_join.simps [of f "(ForwardEventToAssistants e, Pending 0) # ps"]
        task_group_join.simps [of f "(ForwardEventToAssistants e, Finished) # ps"]
        run_ready_finished finished_no_pending finished_no_failed finished_abort)
next
  case (Suc n)
  show ?case
    using assms Suc
    by (simp add: task_group_join.simps [of f "(ForwardEventToAssistants e, Pending (Suc n)) # ps"]
        run_ready_finished finished_no_failed)
qed

lemma run_ready_puts:
  "run_ready f (map (\<lambda>q. (QueuePut q e, Pending 0)) qs) h =
     (map (\<lambda>q. (QueuePut q e, Finished)) qs, put_all e qs h)"
  by (induction qs arbitrary: h) auto

lemma puts_finished: "list_all (\<lambda>x. snd x = Finished) (map (\<lambda>q. (QueuePut q e, Finished)) qs)"
  by (induction qs) auto

lemma join_puts:
  "task_group_join f (map (\<lambda>q. (QueuePut q e, Pending 0)) qs) h =
     (map (\<lambda>q. (QueuePut q e, Finished)) qs, put_all e qs h)"
proof (cases qs)
  case Nil
  then show ?thesis by (simp add: task_group_join.simps)
next
  case (Cons q qs')
  have "list_ex is_pending (map (\<lambda>q. (QueuePut q e, Pending 0)) qs)"
    using Cons by simp
  then show ?thesis
    using puts_finished [of e qs]
    by (simp add: task_group_join.simps [of f "map (\<lambda>q. (QueuePut q e, Pending 0)) qs"]
        task_group_join.simps [of f "map (\<lambda>q. (QueuePut q e, Finished)) qs"]
        run_ready_puts finished_no_failed finished_no_pending)
qed

lemma join_forward_puts:
  "task_group_join f ((ForwardEventToAssistants e, Pending n) # map (\<lambda>q. (QueuePut q e, Pending 0)) qs) h =
     ((ForwardEventToAssistants e, if snd f = Raises then Failed else Finished) #
        map (\<lambda>q. (QueuePut q e, Finished)) qs, put_all e qs h)"
proof (cases n)
  case 0
  show ?thesis
    using puts_finished [of e qs]
    by (simp add: 0 task_group_join.simps [of f "(ForwardEventToAssistants e, Pending 0) # map (\<lambda>q. (QueuePut q e, Pending 0)) qs"]
        task_group_join.simps [of f "(ForwardEventToAssistants e, Finished) # map (\<lambda>q. (QueuePut q e, Finished)) qs"]
        run_ready_puts finished_no_failed finished_no_pending finished_abort)
next
  case (Suc m)
  show ?thesis
    using puts_finished [of e qs]
    by (simp add: Suc task_group_join.simps [of f "(ForwardEventToAssistants e, Pending (Suc m)) # map (\<lambda>q. (QueuePut q e, Pending 0)) qs"]
        run_ready_puts finished_no_failed forward_settles)
qed

lemma spawn_puts:
  "map (spawn f) (map (\<lambda>(qid, q). QueuePut q e) items) =
     map (\<lambda>q. (QueuePut q e, Pending 0)) (map snd items)"
  by (induction items) auto

lemma fan_out_eq:
  "fan_out f s i =
     ((if ''assistant'' \<in> event_audience i
       then [(ForwardEventToAssistants (item_event i), if snd f = Raises then Failed else Finished)]
       else []) @
      map (\<lambda>q. (QueuePut q (item_event i), Finished)) (targets s i),
      s\<lparr>queue_heap := put_all (item_event i) (targets s i) (queue_heap s),
        log := log s @ snd (create_tasks s i)\<rparr>)"
proof -
  let ?e = "item_event i"
  let ?items = "subscribers s (conversation_id ?e)"
  show ?thesis
  proof (cases "''assistant'' \<in> event_audience i")
    case True
    then show ?thesis
      using join_forward_puts [of f ?e "fst f" "targets s i" "queue_heap s"]
      by (cases "''user'' \<in> event_audience i")
         (simp_all add: fan_out_def create_tasks_def targets_def Let_def spawn_puts del: map_map)
  next
    case False
    then show ?thesis
      using join_puts [of f ?e "targets s i" "queue_heap s"]
      by (cases "''user'' \<in> event_audience i")
         (simp_all add: fan_out_def create_tasks_def targets_def Let_def spawn_puts del: map_map)
  qed
qed

lemma put_all_other: "q \<notin> set qs \<Longrightarrow> put_all e qs h q = h q"
  by (induction qs arbitrary: h) auto

lemma put_all_distinct:
  "distinct qs \<Longrightarrow> q \<in> set qs \<Longrightarrow> put_all e qs h q = h q @ [e]"
  by (induction qs arbitrary: h) (auto simp: put_all_other)

subsection \<open>The concrete state\<close>

lemma ex_state_eq:
  "ex_state = \<lparr>stop_signal = False,
     conversation_event_queue = [ex_item {''assistant'', ''user''}], unfinished_tasks = 1,
     conversation_sse_queues = [''c1'' \<mapsto> 1],
     dict_heap = (\<lambda>_. [])(1 := [(''q1'', 0), (''q2'', 2)]),
     queue_heap = (\<lambda>_. []),
     next_addr = 3,
     log = [ClientConnected ''c1'', ClientConnected ''c1'',
            EventEnqueued ''c1'' (ConversationEventType ''message.created'') ''e1'']\<rparr>"
  by (simp add: ex_state_def register_def defaultdict_getitem_def init_state_def notify_event_def
      ex_item_def ex_event_def Let_def fun_eq_iff)

lemma ex_subscribers: "subscribers ex_state ''c1'' = [(''q1'', 0), (''q2'', 2)]"
  by (simp add: ex_state_eq subscribers_def)

subsection \<open>What each operation touches\<close>

lemma finally_registry:
  "conversation_sse_queues (event_generator_finally s sess) =
     (if AList.delete (queue_id sess) (dict_heap s (queues sess)) = []
      then (conversation_sse_queues s)(s_conversation_id sess := None)
      else conversation_sse_queues s)"
  by (simp add: event_generator_finally_def Let_def)

lemma finally_dict_heap:
  "dict_heap (event_generator_finally s sess) =
     (dict_heap s)(queues sess := AList.delete (queue_id sess) (dict_heap s (queues sess)))"
  by (simp add: event_generator_finally_def Let_def)

lemma finally_frame:
  "stop_signal (event_generator_finally s sess) = stop_signal s"
  "conversation_event_queue (event_generator_finally s sess) = conversation_event_queue s"
  "unfinished_tasks (event_generator_finally s sess) = unfinished_tasks s"
  "queue_heap (event_generator_finally s sess) = queue_heap s"
  "next_addr (event_generator_finally s sess) = next_addr s"
  "log (event_generator_finally s sess) = log s"
  by (simp_all add: event_generator_finally_def Let_def)

subsection \<open>The registry keeps its shape\<close>

text \<open>
  Registration, in a new and in an existing dictionary, and the cleanup of a live session
  preserve the shape of the registry; the other steps do not touch it.
\<close>

lemma register_fields:
  "register s c qid =
     (case conversation_sse_queues s c of
        Some a \<Rightarrow>
          (\<lparr>s_conversation_id = c, queue_id = qid, queues = a, event_queue = next_addr s\<rparr>,
           s\<lparr>log := log s @ [ClientConnected c],
             queue_heap := (queue_heap s)(next_addr s := []),
             next_addr := Suc (next_addr s),
             dict_heap := (dict_heap s)(a := AList.update qid (next_addr s) (dict_heap s a))\<rparr>)
      | None \<Rightarrow>
          (\<lparr>s_conversation_id = c, queue_id = qid, queues = Suc (next_addr s),
            event_queue = next_addr s\<rparr>,
           s\<lparr>log := log s @ [ClientConnected c],
             queue_heap := (queue_heap s)(next_addr s := []),
             next_addr := Suc (Suc (next_addr s)),
             conversation_sse_queues := (conversation_sse_queues s)(c \<mapsto> Suc (next_addr s)),
             dict_heap := (dict_heap s)(Suc (next_addr s) := [(qid, next_addr s)])\<rparr>))"
  by (simp add: register_def defaultdict_getitem_def Let_def split: option.splits)

lemma set_update_fresh:
  "k \<notin> fst ` set al \<Longrightarrow> set (AList.update k v al) = insert (k, v) (set al)"
  by (induction al) auto

lemma alist_functional:
  "distinct (map fst al) \<Longrightarrow> (k, v) \<in> set al \<Longrightarrow> (k, v') \<in> set al \<Longrightarrow> v = v'"
  by (metis map_of_eq_Some_iff option.inject)

lemma set_delete: "set (AList.delete k al) = {p \<in> set al. fst p \<noteq> k}"
  by (auto simp: AList.delete_eq)


lemma registry_invD:
  assumes "registry_inv R D N S"
  shows "\<And>c a. R c = Some a \<Longrightarrow> a < N \<and> D a \<noteq> [] \<and> distinct (map fst (D a))"
    and "\<And>c c' a. R c = Some a \<Longrightarrow> R c' = Some a \<Longrightarrow> c = c'"
    and "\<And>x. x \<in> set S \<Longrightarrow> R (s_conversation_id x) = Some (queues x) \<and>
           (queue_id x, event_queue x) \<in> set (D (queues x)) \<and> event_queue x < N"
    and "\<And>c a qid q c' a' qid'. R c = Some a \<Longrightarrow> (qid, q) \<in> set (D a) \<Longrightarrow>
           R c' = Some a' \<Longrightarrow> (qid', q) \<in> set (D a') \<Longrightarrow> c = c' \<and> qid = qid'"
    and "\<And>c a qid q. R c = Some a \<Longrightarrow> (qid, q) \<in> set (D a) \<Longrightarrow> q < N"
    and "distinct (map event_queue S)"
proof -
  from assms show "\<And>c a. R c = Some a \<Longrightarrow> a < N \<and> D a \<noteq> [] \<and> distinct (map fst (D a))"
    unfolding registry_inv_def by (elim conjE) (erule allE, erule allE, erule mp)
  from assms show "\<And>c c' a. R c = Some a \<Longrightarrow> R c' = Some a \<Longrightarrow> c = c'"
    unfolding registry_inv_def by (elim conjE) blast
  from assms show "\<And>x. x \<in> set S \<Longrightarrow> R (s_conversation_id x) = Some (queues x) \<and>
           (queue_id x, event_queue x) \<in> set (D (queues x)) \<and> event_queue x < N"
    unfolding registry_inv_def by (elim conjE) (erule bspec)
  from assms have 4: "\<forall>c a qid q c' a' qid'. R c = Some a \<longrightarrow> (qid, q) \<in> set (D a) \<longrightarrow>
         R c' = Some a' \<longrightarrow> (qid', q) \<in> set (D a') \<longrightarrow> c = c' \<and> qid = qid'"
    unfolding registry_inv_def by (elim conjE)
  show "\<And>c a qid q c' a' qid'. R c = Some a \<Longrightarrow> (qid, q) \<in> set (D a) \<Longrightarrow>
           R c' = Some a' \<Longrightarrow> (qid', q) \<in> set (D a') \<Longrightarrow> c = c' \<and> qid = qid'"
    using 4 [rule_format] by assumption
  from assms have 5: "\<forall>c a qid q. R c = Some a \<longrightarrow> (qid, q) \<in> set (D a) \<longrightarrow> q < N"
    unfolding registry_inv_def by (elim conjE)
  show "\<And>c a qid q. R c = Some a \<Longrightarrow> (qid, q) \<in> set (D a) \<Longrightarrow> q < N"
    using 5 [rule_format] by assumption
  from assms show "distinct (map event_queue S)"
    unfolding registry_inv_def by (elim conjE)
qed

lemma registry_invI:
  assumes "\<And>c a. R c = Some a \<Longrightarrow> a < N \<and> D a \<noteq> [] \<and> distinct (map fst (D a))"
    and "\<And>c c' a. R c = Some a \<Longrightarrow> R c' = Some a \<Longrightarrow> c = c'"
    and "\<And>x. x \<in> set S \<Longrightarrow> R (s_conversation_id x) = Some (queues x) \<and>
           (queue_id x, event_queue x) \<in> set (D (queues x)) \<and> event_queue x < N"
    and "\<And>c a qid q c' a' qid'. R c = Some a \<Longrightarrow> (qid, q) \<in> set (D a) \<Longrightarrow>
           R c' = Some a' \<Longrightarrow> (qid', q) \<in> set (D a') \<Longrightarrow> c = c' \<and> qid = qid'"
    and "\<And>c a qid q. R c = Some a \<Longrightarrow> (qid, q) \<in> set (D a) \<Longrightarrow> q < N"
    and "distinct (map event_queue S)"
  shows "registry_inv R D N S"
  unfolding registry_inv_def
  using assms by (intro conjI allI impI ballI) blast+

lemma registry_inv_new:
  assumes inv: "registry_inv R D N S" and none: "R c = None"
  shows "registry_inv (R(c \<mapsto> Suc N)) (D(Suc N := [(qid, N)])) (Suc (Suc N))
           (S @ [\<lparr>s_conversation_id = c, queue_id = qid, queues = Suc N, event_queue = N\<rparr>])"
proof (rule registry_invI)
  note I = registry_invD [OF inv]
  let ?R = "R(c \<mapsto> Suc N)" and ?D = "D(Suc N := [(qid, N)])"
  let ?new = "\<lparr>s_conversation_id = c, queue_id = qid, queues = Suc N, event_queue = N\<rparr>"
  have old: "b < N \<and> ?D b = D b" if "R cb = Some b" for cb b
    using I(1) [OF that] by simp
  have cases: "(cb = c \<and> b = Suc N) \<or> (cb \<noteq> c \<and> R cb = Some b)" if "?R cb = Some b" for cb b
    using that by (auto split: if_splits)
  show "b < Suc (Suc N) \<and> ?D b \<noteq> [] \<and> distinct (map fst (?D b))" if "?R cb = Some b" for cb b
    using cases [OF that] I(1) [of cb b] by auto
  show "cb = c'" if "?R cb = Some b" "?R c' = Some b" for cb c' b
    using cases [OF that(1)] cases [OF that(2)] I(1) [of cb b] I(1) [of c' b] I(2) [of cb b c']
    by auto
  show "?R (s_conversation_id x) = Some (queues x) \<and>
        (queue_id x, event_queue x) \<in> set (?D (queues x)) \<and> event_queue x < Suc (Suc N)"
    if "x \<in> set (S @ [?new])" for x
  proof (cases "x = ?new")
    case True
    then show ?thesis by simp
  next
    case False
    with that have x: "x \<in> set S" by simp
    from I(3) [OF x] none have "s_conversation_id x \<noteq> c" by auto
    with I(3) [OF x] old [of "s_conversation_id x" "queues x"] show ?thesis by auto
  qed
  have entry: "(b = Suc N \<and> cb = c \<and> k = qid \<and> q = N) \<or>
      (cb \<noteq> c \<and> R cb = Some b \<and> (k, q) \<in> set (D b) \<and> q < N)"
    if "?R cb = Some b" "(k, q) \<in> set (?D b)" for cb b k q
  proof -
    from cases [OF that(1)] show ?thesis
    proof
      assume "cb = c \<and> b = Suc N"
      with that(2) show ?thesis by simp
    next
      assume r: "cb \<noteq> c \<and> R cb = Some b"
      with old [of cb b] that(2) have "(k, q) \<in> set (D b)" by simp
      with r I(5) [of cb b k q] show ?thesis by simp
    qed
  qed
  show "cb = c' \<and> k = k'"
    if "?R cb = Some b" "(k, q) \<in> set (?D b)" "?R c' = Some b'" "(k', q) \<in> set (?D b')"
    for cb b k q c' b' k'
    using entry [OF that(1,2)] entry [OF that(3,4)] I(4) [of cb b k q c' b' k'] by auto
  show "q < Suc (Suc N)" if "?R cb = Some b" "(k, q) \<in> set (?D b)" for cb b k q
    using entry [OF that] by auto
  have "event_queue x \<noteq> N" if "x \<in> set S" for x
    using I(3) [OF that] by simp
  with I(6) show "distinct (map event_queue (S @ [?new]))" by auto
qed

lemma registry_inv_join:
  assumes inv: "registry_inv R D N S" and some: "R c = Some a"
    and fresh: "qid \<notin> fst ` set (D a)"
  shows "registry_inv R (D(a := AList.update qid N (D a))) (Suc N)
           (S @ [\<lparr>s_conversation_id = c, queue_id = qid, queues = a, event_queue = N\<rparr>])"
proof (rule registry_invI)
  note I = registry_invD [OF inv]
  let ?D = "D(a := AList.update qid N (D a))"
  let ?new = "\<lparr>s_conversation_id = c, queue_id = qid, queues = a, event_queue = N\<rparr>"
  have set_a: "set (?D a) = insert (qid, N) (set (D a))"
    using fresh by (simp add: set_update_fresh)
  show "b < Suc N \<and> ?D b \<noteq> [] \<and> distinct (map fst (?D b))" if "R cb = Some b" for cb b
    using I(1) [OF that] by (auto simp: less_Suc_eq AList.distinct_update)
  show "cb = c'" if "R cb = Some b" "R c' = Some b" for cb c' b
    using that by (rule I(2))
  show "R (s_conversation_id x) = Some (queues x) \<and>
        (queue_id x, event_queue x) \<in> set (?D (queues x)) \<and> event_queue x < Suc N"
    if "x \<in> set (S @ [?new])" for x
  proof (cases "x = ?new")
    case True
    with some set_a show ?thesis by simp
  next
    case False
    with that have x: "x \<in> set S" by simp
    from I(3) [OF x] set_a show ?thesis by (cases "queues x = a") auto
  qed
  have entry: "(b = a \<and> cb = c \<and> k = qid \<and> q = N) \<or> ((k, q) \<in> set (D b) \<and> q < N)"
    if "R cb = Some b" "(k, q) \<in> set (?D b)" for cb b k q
  proof (cases "b = a")
    case True
    with that(1) some I(2) have "cb = c" by blast
    with True that set_a I(5) [of cb b k q] show ?thesis by auto
  next
    case False
    with that I(5) [of cb b k q] show ?thesis by simp
  qed
  show "cb = c' \<and> k = k'"
    if "R cb = Some b" "(k, q) \<in> set (?D b)" "R c' = Some b'" "(k', q) \<in> set (?D b')"
    for cb b k q c' b' k'
    using entry [OF that(1,2)] entry [OF that(3,4)] I(4) [OF that(1) _ that(3), of k q k'] by auto
  show "q < Suc N" if "R cb = Some b" "(k, q) \<in> set (?D b)" for cb b k q
    using entry [OF that] by auto
  have "event_queue x \<noteq> N" if "x \<in> set S" for x
    using I(3) [OF that] by simp
  with I(6) show "distinct (map event_queue (S @ [?new]))" by auto
qed

lemma registry_inv_drop:
  assumes inv: "registry_inv R D N S"
  shows "registry_inv R D N (filter P S)"
proof (rule registry_invI)
  note I = registry_invD [OF inv]
  show "a < N \<and> D a \<noteq> [] \<and> distinct (map fst (D a))" if "R c = Some a" for c a
    using that by (rule I(1))
  show "c = c'" if "R c = Some a" "R c' = Some a" for c c' a
    using that by (rule I(2))
  show "R (s_conversation_id x) = Some (queues x) \<and>
        (queue_id x, event_queue x) \<in> set (D (queues x)) \<and> event_queue x < N"
    if "x \<in> set (filter P S)" for x
    using that I(3) [of x] by simp
  show "c = c' \<and> qid = qid'"
    if "R c = Some a" "(qid, q) \<in> set (D a)" "R c' = Some a'" "(qid', q) \<in> set (D a')"
    for c a qid q c' a' qid'
    using that by (rule I(4))
  show "q < N" if "R c = Some a" "(qid, q) \<in> set (D a)" for c a qid q
    using that by (rule I(5))
  from I(6) show "distinct (map event_queue (filter P S))" by (simp add: distinct_map_filter)
qed

lemma registry_inv_leave:
  assumes inv: "registry_inv R D N S" and x: "x \<in> set S"
  shows "registry_inv
           (if AList.delete (queue_id x) (D (queues x)) = []
            then R(s_conversation_id x := None) else R)
           (D(queues x := AList.delete (queue_id x) (D (queues x)))) N
           (filter (\<lambda>y. event_queue y \<noteq> event_queue x) S)"
proof (rule registry_invI)
  let ?a = "queues x" and ?c = "s_conversation_id x" and ?k = "queue_id x" and ?q = "event_queue x"
  let ?d = "AList.delete ?k (D ?a)"
  let ?R = "if ?d = [] then R(?c := None) else R"
  let ?D = "D(?a := ?d)"
  let ?S = "filter (\<lambda>y. event_queue y \<noteq> ?q) S"
  note I = registry_invD [OF inv]
  from I(3) [OF x] have Rc: "R ?c = Some ?a" and kq: "(?k, ?q) \<in> set (D ?a)" by auto
  from I(1) [OF Rc] have da: "distinct (map fst (D ?a))" by simp
  have sub: "R c = Some b" if "?R c = Some b" for c b
    using that by (auto split: if_splits)
  have subD: "(k, q) \<in> set (D b)" if "(k, q) \<in> set (?D b)" for b k q
    using that by (auto simp: set_delete split: if_splits)
  show "a < N \<and> ?D a \<noteq> [] \<and> distinct (map fst (?D a))" if "?R c = Some a" for c a
  proof (cases "a = ?a")
    case True
    from sub [OF that] True Rc I(2) have "c = ?c" by blast
    with that have "?d \<noteq> []" by (auto split: if_splits)
    with True I(1) [OF sub [OF that]] show ?thesis by (simp add: AList.distinct_delete)
  next
    case False
    with I(1) [OF sub [OF that]] show ?thesis by simp
  qed
  show "c = c'" if "?R c = Some a" "?R c' = Some a" for c c' a
    using sub [OF that(1)] sub [OF that(2)] by (rule I(2))
  show "?R (s_conversation_id y) = Some (queues y) \<and>
         (queue_id y, event_queue y) \<in> set (?D (queues y)) \<and> event_queue y < N"
    if "y \<in> set ?S" for y
  proof -
    from that have y: "y \<in> set S" and ne: "event_queue y \<noteq> ?q" by auto
    note Y = I(3) [OF y]
    show ?thesis
    proof (cases "s_conversation_id y = ?c")
      case True
      with Y Rc have qa: "queues y = ?a" by simp
      have "queue_id y \<noteq> ?k"
      proof
        assume "queue_id y = ?k"
        with Y qa have "(?k, event_queue y) \<in> set (D ?a)" by simp
        from alist_functional [OF da this kq] ne show False by simp
      qed
      with Y qa have mem: "(queue_id y, event_queue y) \<in> set ?d" by (simp add: set_delete)
      then have "?d \<noteq> []" by auto
      with Y mem qa show ?thesis by simp
    next
      case False
      have "queues y \<noteq> ?a"
      proof
        assume "queues y = ?a"
        with Y Rc I(2) have "s_conversation_id y = ?c" by metis
        with False show False by simp
      qed
      with Y False show ?thesis by simp
    qed
  qed
  show "c = c' \<and> qid = qid'"
    if "?R c = Some a" "(qid, q) \<in> set (?D a)" "?R c' = Some a'" "(qid', q) \<in> set (?D a')"
    for c a qid q c' a' qid'
    using sub [OF that(1)] subD [OF that(2)] sub [OF that(3)] subD [OF that(4)] by (rule I(4))
  show "q < N" if "?R c = Some a" "(qid, q) \<in> set (?D a)" for c a qid q
    using sub [OF that(1)] subD [OF that(2)] by (rule I(5))
  from I(6) show "distinct (map event_queue ?S)" by (simp add: distinct_map_filter)
qed

subsection \<open>Steps of the service\<close>

lemma notify_frame:
  "conversation_sse_queues (notify_event s i) = conversation_sse_queues s"
  "dict_heap (notify_event s i) = dict_heap s"
  "queue_heap (notify_event s i) = queue_heap s"
  "next_addr (notify_event s i) = next_addr s"
  "stop_signal (notify_event s i) = stop_signal s"
  by (simp_all add: notify_event_def Let_def)

lemma queue_get_frame:
  assumes "queue_get s = Some (i, s')"
  shows "conversation_sse_queues s' = conversation_sse_queues s"
    "dict_heap s' = dict_heap s" "queue_heap s' = queue_heap s" "next_addr s' = next_addr s"
    "stop_signal s' = stop_signal s" "unfinished_tasks s' = unfinished_tasks s"
    "conversation_event_queue s = i # conversation_event_queue s'"
  using assms by (auto simp: queue_get_def split: list.splits)

lemma dispatch_frame:
  "conversation_sse_queues (broadcast_dispatch f s i) = conversation_sse_queues s"
  "dict_heap (broadcast_dispatch f s i) = dict_heap s"
  "next_addr (broadcast_dispatch f s i) = next_addr s"
  "stop_signal (broadcast_dispatch f s i) = stop_signal s"
  "conversation_event_queue (broadcast_dispatch f s i) = conversation_event_queue s"
  by (simp_all add: broadcast_dispatch_def broadcast_body_def fan_out_eq task_done_def
      split: option.splits)


lemma dispatch_unfinished:
  "unfinished_tasks (broadcast_dispatch f s i) = unfinished_tasks s - 1"
  by (simp add: broadcast_dispatch_def broadcast_body_def fan_out_eq task_done_def
      split: option.splits)

lemma iteration_frame:
  assumes "session_iteration s sess inp = (r, s')"
  shows "conversation_sse_queues s' = conversation_sse_queues s"
    "dict_heap s' = dict_heap s" "next_addr s' = next_addr s"
    "stop_signal s' = stop_signal s" "unfinished_tasks s' = unfinished_tasks s"
    "conversation_event_queue s' = conversation_event_queue s"
  using assms
  by (auto simp: session_iteration_def loop_turn_def Let_def
      split: session_input.splits if_splits list.splits option.splits fault.splits)

lemma find_session:
  "find (\<lambda>x. event_queue x = q) S = Some sess \<Longrightarrow> sess \<in> set S \<and> event_queue sess = q"
  by (auto simp: find_Some_iff)

lemma end_session_registry_ok: "registry_ok s \<Longrightarrow> registry_ok (end_session s q)"
  by (simp add: registry_ok_def end_session_def registry_inv_drop)

lemma enter_finally_free:
  "inflight s = None \<Longrightarrow> enter_finally s sess =
     s\<lparr>globals := event_generator_finally (globals s) sess,
       sessions := filter (\<lambda>x. event_queue x \<noteq> event_queue sess) (sessions s)\<rparr>"
  by (simp add: enter_finally_def end_session_def)

lemma enter_finally_held:
  "inflight s \<noteq> None \<Longrightarrow> enter_finally s sess =
     s\<lparr>phase := (phase s)(event_queue sess := Cleaning)\<rparr>"
  by (auto simp add: enter_finally_def)

lemma enter_finally_registry_ok:
  assumes ok: "registry_ok s" and mem: "sess \<in> set (sessions s)"
  shows "registry_ok (enter_finally s sess)"
proof (cases "inflight s = None")
  case True
  from ok mem registry_inv_leave [of "conversation_sse_queues (globals s)"
      "dict_heap (globals s)" "next_addr (globals s)" "sessions s" sess]
  show ?thesis
    unfolding enter_finally_free [OF True]
    by (auto simp add: registry_ok_def finally_registry finally_dict_heap finally_frame
        split: if_splits)
next
  case False
  with ok show ?thesis by (simp add: enter_finally_held registry_ok_def)
qed

lemma session_turn_registry_ok:
  assumes ok: "registry_ok s" and mem: "sess \<in> set (sessions s)"
  shows "registry_ok (session_turn s sess inp)"
proof -
  obtain r g where it: "session_iteration (globals s) sess inp = (r, g)"
    by (cases "session_iteration (globals s) sess inp")
  note fr = iteration_frame [OF it]
  from ok fr have ok': "registry_ok (s\<lparr>globals := g\<rparr>)" by (simp add: registry_ok_def)
  show ?thesis
  proof (cases r)
    case (Break why)
    with it enter_finally_registry_ok [OF ok'] mem show ?thesis
      by (simp add: session_turn_def Let_def)
  next
    case Continue
    with it ok fr show ?thesis by (simp add: session_turn_def registry_ok_def Let_def)
  next
    case (Yield rec)
    with it ok fr show ?thesis by (simp add: session_turn_def registry_ok_def Let_def)
  qed
qed

lemma session_step_registry_ok:
  assumes ok: "registry_ok s" and mem: "sess \<in> set (sessions s)"
  shows "registry_ok (session_step s sess inp)"
  using end_session_registry_ok [OF ok] enter_finally_registry_ok [OF ok mem]
    session_turn_registry_ok [OF ok mem]
  by (simp add: session_step_def split: phase.splits)

lemma step_registry_ok:
  assumes ok: "registry_ok s" and st: "step s a = Some s'"
  shows "registry_ok s'"
proof (cases a)
  case (Notify i)
  with ok st show ?thesis by (auto simp: step_def registry_ok_def notify_frame)
next
  case (Connect c qid)
  show ?thesis
  proof (cases "inflight s = None")
    case False
    with ok st Connect show ?thesis by (auto simp: step_def)
  next
    case free: True
    show ?thesis
    proof (cases "conversation_sse_queues (globals s) c")
      case None
      with ok st Connect free registry_inv_new [of "conversation_sse_queues (globals s)"
          "dict_heap (globals s)" "next_addr (globals s)" "sessions s" c qid]
      show ?thesis
        by (auto simp: step_def registry_ok_def register_fields split: if_splits)
    next
      case (Some a)
      with ok st Connect free registry_inv_join [of "conversation_sse_queues (globals s)"
          "dict_heap (globals s)" "next_addr (globals s)" "sessions s" c a qid]
      show ?thesis
        by (auto simp: step_def registry_ok_def register_fields subscribers_def split: if_splits)
    qed
  qed
next
  case (Session q inp)
  show ?thesis
  proof (cases "find (\<lambda>x. event_queue x = q) (sessions s)")
    case None
    with ok st Session show ?thesis by (simp add: step_def)
  next
    case (Some sess)
    then have mem: "sess \<in> set (sessions s)" by (auto dest: find_session)
    from st Session Some have "s' = session_step s sess inp" by (simp add: step_def)
    with session_step_registry_ok [OF ok mem] show ?thesis by simp
  qed
next
  case BroadcastGet
  with ok st show ?thesis
    by (auto simp: step_def registry_ok_def queue_get_frame split: if_splits option.splits)
next
  case (BroadcastDispatch f)
  with ok st show ?thesis
    by (auto simp: step_def registry_ok_def dispatch_frame split: if_splits option.splits)
next
  case Lifespan
  with ok st show ?thesis
    by (auto simp: step_def registry_ok_def lifespan_step_def split: lifespan_pc.splits)
qed

lemma exec_registry_ok:
  "registry_ok s \<Longrightarrow> exec as s = Some s' \<Longrightarrow> registry_ok s'"
  by (induction as arbitrary: s) (auto split: option.splits dest: step_registry_ok)

lemma init_registry_ok: "registry_ok init_sys"
  by (simp add: registry_ok_def registry_inv_def init_sys_def init_state_def)

subsection \<open>The delivery side\<close>

text \<open>
  Every step but one of the shutdown block either accepts one item, or finishes the first
  pending item, or leaves the pending and the completed items as they are.
\<close>

lemma register_frame:
  "stop_signal (snd (register s c qid)) = stop_signal s"
  "unfinished_tasks (snd (register s c qid)) = unfinished_tasks s"
  "conversation_event_queue (snd (register s c qid)) = conversation_event_queue s"
  by (simp_all add: register_fields split: option.splits)

lemma end_session_frame:
  "globals (end_session s q) = globals s" "inflight (end_session s q) = inflight s"
  "lifespan (end_session s q) = lifespan s" "tasks_cancelled (end_session s q) = tasks_cancelled s"
  "engine_disposed (end_session s q) = engine_disposed s"
  "tasks_awaited (end_session s q) = tasks_awaited s" "completed (end_session s q) = completed s"
  "phase (end_session s q) = phase s" "sent (end_session s q) = sent s"
  by (simp_all add: end_session_def)

lemma enter_finally_frame:
  "inflight (enter_finally s sess) = inflight s" "lifespan (enter_finally s sess) = lifespan s"
  "tasks_cancelled (enter_finally s sess) = tasks_cancelled s"
  "engine_disposed (enter_finally s sess) = engine_disposed s"
  "tasks_awaited (enter_finally s sess) = tasks_awaited s"
  "completed (enter_finally s sess) = completed s"
  "sent (enter_finally s sess) = sent s"
  "stop_signal (globals (enter_finally s sess)) = stop_signal (globals s)"
  "unfinished_tasks (globals (enter_finally s sess)) = unfinished_tasks (globals s)"
  "conversation_event_queue (globals (enter_finally s sess)) = conversation_event_queue (globals s)"
  "queue_heap (globals (enter_finally s sess)) = queue_heap (globals s)"
  by (simp_all add: enter_finally_def end_session_def finally_frame)

lemma session_turn_frame:
  "inflight (session_turn s sess inp) = inflight s" "lifespan (session_turn s sess inp) = lifespan s"
  "tasks_cancelled (session_turn s sess inp) = tasks_cancelled s"
  "engine_disposed (session_turn s sess inp) = engine_disposed s"
  "tasks_awaited (session_turn s sess inp) = tasks_awaited s"
  "completed (session_turn s sess inp) = completed s"
  "stop_signal (globals (session_turn s sess inp)) = stop_signal (globals s)"
  "unfinished_tasks (globals (session_turn s sess inp)) = unfinished_tasks (globals s)"
  "conversation_event_queue (globals (session_turn s sess inp)) = conversation_event_queue (globals s)"
proof -
  obtain r g where it: "session_iteration (globals s) sess inp = (r, g)"
    by (cases "session_iteration (globals s) sess inp")
  note fr = iteration_frame [OF it]
  show "inflight (session_turn s sess inp) = inflight s"
    "lifespan (session_turn s sess inp) = lifespan s"
    "tasks_cancelled (session_turn s sess inp) = tasks_cancelled s"
    "engine_disposed (session_turn s sess inp) = engine_disposed s"
    "tasks_awaited (session_turn s sess inp) = tasks_awaited s"
    "completed (session_turn s sess inp) = completed s"
    "stop_signal (globals (session_turn s sess inp)) = stop_signal (globals s)"
    "unfinished_tasks (globals (session_turn s sess inp)) = unfinished_tasks (globals s)"
    "conversation_event_queue (globals (session_turn s sess inp)) = conversation_event_queue (globals s)"
    using it fr by (cases r; simp add: session_turn_def Let_def enter_finally_frame)+
qed

lemma session_step_frame:
  "inflight (session_step s sess inp) = inflight s" "lifespan (session_step s sess inp) = lifespan s"
  "tasks_cancelled (session_step s sess inp) = tasks_cancelled s"
  "engine_disposed (session_step s sess inp) = engine_disposed s"
  "tasks_awaited (session_step s sess inp) = tasks_awaited s"
  "completed (session_step s sess inp) = completed s"
  "stop_signal (globals (session_step s sess inp)) = stop_signal (globals s)"
  "unfinished_tasks (globals (session_step s sess inp)) = unfinished_tasks (globals s)"
  "conversation_event_queue (globals (session_step s sess inp)) = conversation_event_queue (globals s)"
  by (simp_all add: session_step_def end_session_frame enter_finally_frame session_turn_frame
      split: phase.splits)

lemma step_delivery:
  assumes st: "step s a = Some s'"
  shows "a = Lifespan \<or>
     (lifespan s' = lifespan s \<and> tasks_cancelled s' = tasks_cancelled s \<and>
      engine_disposed s' = engine_disposed s \<and> tasks_awaited s' = tasks_awaited s \<and>
      stop_signal (globals s') = stop_signal (globals s) \<and>
      ((\<exists>i. a = Notify i \<and> \<not> stop_signal (globals s) \<and> pending s' = pending s @ [i] \<and>
            completed s' = completed s \<and>
            unfinished_tasks (globals s') = Suc (unfinished_tasks (globals s))) \<or>
       (\<exists>i rest. pending s = i # rest \<and> pending s' = rest \<and> completed s' = completed s @ [i] \<and>
            unfinished_tasks (globals s') = unfinished_tasks (globals s) - 1 \<and>
            \<not> tasks_cancelled s) \<or>
       (pending s' = pending s \<and> completed s' = completed s \<and>
            unfinished_tasks (globals s') = unfinished_tasks (globals s) \<and>
            (\<forall>i. a = Notify i \<longrightarrow> stop_signal (globals s)))))"
proof (cases a)
  case (Notify i)
  with st show ?thesis
    by (cases "stop_signal (globals s)") (auto simp: step_def notify_event_def pending_def Let_def)
next
  case (Connect c qid)
  with st show ?thesis
    using register_frame [of "globals s" c qid]
    by (auto simp: step_def pending_def split: if_splits prod.splits)
next
  case (Session q inp)
  show ?thesis
  proof (cases "find (\<lambda>x. event_queue x = q) (sessions s)")
    case None
    with st Session show ?thesis by (simp add: step_def)
  next
    case (Some sess)
    from st Session Some have "s' = session_step s sess inp" by (simp add: step_def)
    with Session show ?thesis by (simp add: session_step_frame pending_def)
  qed
next
  case BroadcastGet
  with st show ?thesis
    by (auto simp: step_def pending_def queue_get_def split: if_splits option.splits list.splits)
next
  case (BroadcastDispatch f)
  with st show ?thesis
    by (auto simp: step_def pending_def dispatch_frame dispatch_unfinished
        split: if_splits option.splits)
next
  case Lifespan
  then show ?thesis by simp
qed

lemma lifespan_step_delivery:
  "pending (lifespan_step s) = pending s" "completed (lifespan_step s) = completed s"
  "unfinished_tasks (globals (lifespan_step s)) = unfinished_tasks (globals s)"
  "stop_signal (globals s) \<Longrightarrow> stop_signal (globals (lifespan_step s))"
  by (auto simp: lifespan_step_def pending_def split: lifespan_pc.splits)

lemma step_shutdown_inv:
  assumes inv: "shutdown_inv s" and st: "step s a = Some s'"
  shows "shutdown_inv s'"
proof (cases "a = Lifespan")
  case True
  with st have s': "s' = lifespan_step s" by (simp add: step_def)
  show ?thesis
    using inv unfolding shutdown_inv_def s' lifespan_step_delivery
    by (cases "lifespan s") (auto simp: lifespan_step_def)
next
  case False
  with step_delivery [OF st] inv show ?thesis
    unfolding shutdown_inv_def by (elim disjE conjE exE) auto
qed

lemma exec_shutdown_inv:
  "shutdown_inv s \<Longrightarrow> exec as s = Some s' \<Longrightarrow> shutdown_inv s'"
  by (induction as arbitrary: s) (auto split: option.splits dest: step_shutdown_inv)

lemma init_shutdown_inv: "shutdown_inv init_sys"
  by (simp add: shutdown_inv_def init_sys_def init_state_def pending_def)

lemma step_after_stop:
  assumes stop: "stop_signal (globals s)" and st: "step s a = Some s'"
  shows "stop_signal (globals s') \<and> completed s' @ pending s' = completed s @ pending s"
proof (cases "a = Lifespan")
  case True
  with st have "s' = lifespan_step s" by (simp add: step_def)
  with stop show ?thesis by (simp add: lifespan_step_delivery)
next
  case False
  with step_delivery [OF st] stop show ?thesis by (elim disjE conjE exE) auto
qed

lemma exec_after_stop:
  "stop_signal (globals s) \<Longrightarrow> exec as s = Some s' \<Longrightarrow>
     stop_signal (globals s') \<and> completed s' @ pending s' = completed s @ pending s"
proof (induction as arbitrary: s)
  case Nil
  then show ?case by simp
next
  case (Cons a as)
  from Cons.prems obtain t where t: "step s a = Some t" and e: "exec as t = Some s'"
    by (auto split: option.splits)
  from step_after_stop [OF Cons.prems(1) t] Cons.IH [OF _ e] show ?case by simp
qed

subsection \<open>What a session is owed\<close>









lemma registry_ok_session:
  assumes "registry_ok s" and "x \<in> set (sessions s)"
  shows "conversation_sse_queues (globals s) (s_conversation_id x) = Some (queues x)"
    and "(queue_id x, event_queue x) \<in> set (dict_heap (globals s) (queues x))"
    and "event_queue x < next_addr (globals s)"
    and "distinct (map event_queue (sessions s))"
  using registry_invD(3) [OF assms(1) [unfolded registry_ok_def] assms(2)]
    registry_invD(6) [OF assms(1) [unfolded registry_ok_def]]
  by simp_all


lemma for_subscribers_Nil [simp]: "for_subscribers c [] = []"
  by (simp add: for_subscribers_def)






subsection \<open>Entries and live sessions\<close>

text \<open>
  A session whose generator is not gone is registered: its conversation has an entry, and
  the entry lists its channel under its queue id. When the two removals of the cleanup
  have run, the registration is gone from the dictionary the session holds, and the entry
  of the conversation is gone as well if that dictionary has become empty.
\<close>

lemma live_session_registered:
  assumes "exec as init_sys = Some s" and "x \<in> set (sessions s)"
  shows "conversation_sse_queues (globals s) (s_conversation_id x) = Some (queues x)"
    and "(queue_id x, event_queue x) \<in> set (subscribers (globals s) (s_conversation_id x))"
proof -
  from exec_registry_ok [OF init_registry_ok assms(1)] have ok: "registry_ok s" .
  from registry_ok_session(1) [OF ok assms(2)]
  show "conversation_sse_queues (globals s) (s_conversation_id x) = Some (queues x)" .
  with registry_ok_session(2) [OF ok assms(2)]
  show "(queue_id x, event_queue x) \<in> set (subscribers (globals s) (s_conversation_id x))"
    by (simp add: subscribers_def)
qed

lemma finally_removes:
  "queue_id sess \<notin> fst ` set (dict_heap (event_generator_finally s sess) (queues sess))"
  "dict_heap (event_generator_finally s sess) (queues sess) = [] \<Longrightarrow>
     conversation_sse_queues (event_generator_finally s sess) (s_conversation_id sess) = None"
  by (simp_all add: finally_dict_heap finally_registry AList.delete_notin_dom)

lemma loop_left_iff:
  "(\<exists>r g'. session_iteration g sess inp = (Break r, g')) \<longleftrightarrow>
     inp = Throw \<or> stop_signal g \<or> queue_id sess \<notin> fst ` set (dict_heap g (queues sess)) \<or>
     (\<exists>ft. inp = Poll Disconnected \<or> inp = Faulty Disconnected ft)"
proof (cases inp)
  case Throw
  then show ?thesis by (simp add: session_iteration_def)
next
  case (Poll pr)
  show ?thesis
    by (cases "queue_heap g (event_queue sess)"; cases pr)
       (auto simp: session_iteration_def loop_turn_def Poll Let_def)
next
  case (Faulty pr ft)
  show ?thesis
    by (cases "queue_heap g (event_queue sess)"; cases pr; cases ft)
       (auto simp: session_iteration_def loop_turn_def Faulty Let_def)
qed

section \<open>Results\<close>

lemmas ex_eval = step_def register_fields notify_event_def queue_get_def init_sys_def init_state_def
  subscribers_def Let_def ex_item_def ex_event_def session_step_def session_turn_def
  enter_finally_def end_session_def session_iteration_def loop_turn_def
  broadcast_dispatch_def broadcast_body_def fan_out_eq task_done_def task_group_exit_def
  targets_def create_tasks_def lifespan_step_def event_generator_finally_def pending_def
  for_subscribers_def ex_session_def ex_connect_def ex_deliver_def ex_stopping_def
  ex_drain_def ex_shutdown_def ex_late_def ex_stopped_def ex_send_error_def ex_unstarted_def
  ex_interrupted_def ex_cancelled_def

subsection \<open>Delivery to subscribers\<close>




text \<open>
  The same loss without a shutdown: when an exception is raised while the record of an
  event is built, the event has been taken from the channel, the handler of the loop logs
  the exception, and the session goes on without having sent the event.
\<close>

lemma send_error_drops_event:
  "exec ex_send_error init_sys \<noteq> None \<and>
   ex_session \<in> set (sessions (the (exec ex_send_error init_sys))) \<and>
   for_subscribers ''c1'' (notified ex_send_error) = [ex_event] \<and>
   pending (the (exec ex_send_error init_sys)) = [] \<and>
   queue_heap (globals (the (exec ex_send_error init_sys))) 0 = [] \<and>
   sent (the (exec ex_send_error init_sys)) 0 = [] \<and>
   last (log (globals (the (exec ex_send_error init_sys)))) = SendError ''c1''"
  by (simp add: ex_eval)

subsection \<open>Failures inside the fan-out\<close>

text \<open>
  C2, as the code has it. The fan-out has no handler of its own: when the assistant
  forwarder raises, the task group raises an exception group out of the block once all its
  tasks are done, \<^verbatim>\<open>task_done\<close> is reached in the \<^verbatim>\<open>finally\<close> block, and the handler of the
  loop logs the exception, after which the loop goes on. No task of the group is cancelled
  and none is left pending, because every append to a subscriber channel is done in the
  first step of its task: every subscriber channel of the conversation has the event
  appended, whatever the forwarder does.
\<close>

theorem forwarder_failure_reaches_loop_handler:
  "\<not> list_ex is_cancelled (fst (fan_out f s i)) \<and>
   \<not> list_ex is_pending (fst (fan_out f s i)) \<and>
   queue_heap (broadcast_dispatch f s i) = put_all (item_event i) (targets s i) (queue_heap s) \<and>
   (distinct (targets s i) \<longrightarrow>
      (\<forall>q \<in> set (targets s i).
         queue_heap (broadcast_dispatch f s i) q = queue_heap s q @ [item_event i])) \<and>
   (0 < unfinished_tasks s \<longrightarrow>
      unfinished_tasks (broadcast_dispatch f s i) = unfinished_tasks s - 1 \<and>
      (fst (broadcast_body f s i) = Some ExceptionGroup \<longleftrightarrow>
         ''assistant'' \<in> event_audience i \<and> snd f = Raises) \<and>
      log (broadcast_dispatch f s i) = log s @ snd (create_tasks s i) @
        (if ''assistant'' \<in> event_audience i \<and> snd f = Raises then [BroadcastException] else []))"
proof -
  have tab: "\<not> list_ex is_cancelled (fst (fan_out f s i)) \<and> \<not> list_ex is_pending (fst (fan_out f s i))"
    by (auto simp add: fan_out_eq list_ex_iff)
  have failed: "list_ex is_failed (fst (fan_out f s i)) \<longleftrightarrow>
      ''assistant'' \<in> event_audience i \<and> snd f = Raises"
    by (auto simp add: fan_out_eq list_ex_iff)
  have heap: "queue_heap (broadcast_dispatch f s i) = put_all (item_event i) (targets s i) (queue_heap s)"
    by (simp add: broadcast_dispatch_def broadcast_body_def fan_out_eq task_done_def
        task_group_exit_def split: option.splits)
  have each: "\<forall>q \<in> set (targets s i).
      queue_heap (broadcast_dispatch f s i) q = queue_heap s q @ [item_event i]"
    if "distinct (targets s i)"
    using that by (simp add: heap put_all_distinct)
  have body: "fst (broadcast_body f s i) = Some ExceptionGroup \<longleftrightarrow>
         ''assistant'' \<in> event_audience i \<and> snd f = Raises" if "0 < unfinished_tasks s"
    using that failed
    by (simp add: broadcast_body_def task_done_def task_group_exit_def fan_out_eq)
  have cnt: "unfinished_tasks (broadcast_dispatch f s i) = unfinished_tasks s - 1"
    if "0 < unfinished_tasks s"
    using that
    by (simp add: broadcast_dispatch_def broadcast_body_def fan_out_eq task_done_def
        task_group_exit_def split: option.splits)
  have lg: "log (broadcast_dispatch f s i) = log s @ snd (create_tasks s i) @
        (if ''assistant'' \<in> event_audience i \<and> snd f = Raises then [BroadcastException] else [])"
    if "0 < unfinished_tasks s"
    using that failed
    by (simp add: broadcast_dispatch_def broadcast_body_def fan_out_eq task_done_def
        task_group_exit_def split: option.splits)
  show ?thesis using tab heap each body cnt lg by blast
qed

theorem forwarder_failure_reaches_loop_handler_witness:
  "distinct (targets ex_state (ex_item {''assistant'', ''user''})) \<and>
   set (targets ex_state (ex_item {''assistant'', ''user''})) = {0, 2} \<and>
   0 < unfinished_tasks ex_state \<and>
   queue_heap (broadcast_dispatch (1, Raises) ex_state (ex_item {''assistant'', ''user''})) 0 =
     [ex_event] \<and>
   queue_heap (broadcast_dispatch (1, Raises) ex_state (ex_item {''assistant'', ''user''})) 2 =
     [ex_event] \<and>
   unfinished_tasks (broadcast_dispatch (1, Raises) ex_state (ex_item {''assistant'', ''user''})) = 0 \<and>
   fst (broadcast_body (1, Raises) ex_state (ex_item {''assistant'', ''user''})) =
     Some ExceptionGroup"
proof -
  let ?i = "ex_item {''assistant'', ''user''}"
  have t: "targets ex_state ?i = [0, 2]"
    by (simp add: targets_def ex_subscribers ex_item_def ex_event_def)
  have d: "distinct (targets ex_state ?i)" by (simp add: t)
  have u: "0 < unfinished_tasks ex_state \<and> unfinished_tasks ex_state = 1"
    by (simp add: ex_state_eq)
  have h: "queue_heap ex_state 0 = [] \<and> queue_heap ex_state 2 = []" by (simp add: ex_state_eq)
  have a: "''assistant'' \<in> event_audience ?i \<and> snd (1::nat, Raises) = Raises \<and>
      item_event ?i = ex_event"
    by (simp add: ex_item_def)
  from forwarder_failure_reaches_loop_handler [of "(1, Raises)" ex_state ?i] d u t h a
  show ?thesis by simp
qed

text \<open>
  C2 as stated fails: with two subscribers and a forwarder that raises at once, the
  failure is not confined to its task; the body of the iteration is left by the exception
  group, which only the handler of the loop catches.
\<close>

theorem forwarder_failure_leaves_block:
  "fst (broadcast_body (0, Raises) ex_state (ex_item {''assistant'', ''user''})) =
     Some ExceptionGroup \<and>
   last (log (broadcast_dispatch (0, Raises) ex_state (ex_item {''assistant'', ''user''}))) =
     BroadcastException"
  by (simp add: broadcast_dispatch_def broadcast_body_def fan_out_eq task_done_def
      task_group_exit_def ex_item_def ex_state_eq)

subsection \<open>Shutdown\<close>

text \<open>
  C3. Let \<open>s1\<close> be a state the service has reached with the stop signal set, and \<open>s2\<close> any
  later state in which the shutdown block has cancelled the background tasks. Then the
  items for which \<^verbatim>\<open>task_done\<close> was reached between the two are exactly the items that
  were pending in \<open>s1\<close>, in order; in \<open>s2\<close> the delivery queue is empty, nothing is in flight
  and nothing is unfinished; and a submission made in \<open>s1\<close> is dropped with a log line only.
\<close>

theorem drained_before_cancel:
  assumes "exec pre init_sys = Some s1" and "stop_signal (globals s1)"
    and "exec post s1 = Some s2" and "tasks_cancelled s2"
  shows "completed s2 = completed s1 @ pending s1 \<and>
         conversation_event_queue (globals s2) = [] \<and> inflight s2 = None \<and>
         unfinished_tasks (globals s2) = 0 \<and>
         (\<forall>i. step s1 (Notify i) = Some (s1\<lparr>globals := (globals s1)\<lparr>log := log (globals s1) @
             [IgnoringEvent (conversation_id (item_event i)) (event (item_event i))
                (ev_id (item_event i))]\<rparr>\<rparr>))"
proof -
  from exec_shutdown_inv [OF init_shutdown_inv assms(1)] have "shutdown_inv s1" .
  from exec_shutdown_inv [OF this assms(3)] have inv: "shutdown_inv s2" .
  with assms(4) have p: "pending s2 = []" and u: "unfinished_tasks (globals s2) = 0"
    unfolding shutdown_inv_def by auto
  from exec_after_stop [OF assms(2,3)] p have "completed s2 = completed s1 @ pending s1" by simp
  moreover from p have "conversation_event_queue (globals s2) = [] \<and> inflight s2 = None"
    by (auto simp: pending_def split: option.splits)
  moreover have "step s1 (Notify i) = Some (s1\<lparr>globals := (globals s1)\<lparr>log := log (globals s1) @
             [IgnoringEvent (conversation_id (item_event i)) (event (item_event i))
                (ev_id (item_event i))]\<rparr>\<rparr>)" for i
    using assms(2) by (simp add: step_def notify_event_def Let_def)
  ultimately show ?thesis using u by blast
qed

theorem drained_before_cancel_witness:
  "exec ex_stopping init_sys = Some ex_t1 \<and> stop_signal (globals ex_t1) \<and>
   exec ex_drain ex_t1 = Some ex_t2 \<and> tasks_cancelled ex_t2 \<and>
   pending ex_t1 = [ex_item {''user''}] \<and>
   completed ex_t2 = completed ex_t1 @ pending ex_t1 \<and>
   conversation_event_queue (globals ex_t2) = [] \<and> inflight ex_t2 = None"
proof -
  have 1: "exec ex_stopping init_sys = Some ex_t1"
    by (simp add: ex_t1_def ex_eval)
  have 2: "stop_signal (globals ex_t1)"
    by (simp add: ex_t1_def ex_eval)
  have 3: "exec ex_drain ex_t1 = Some ex_t2"
    by (simp add: ex_t2_def ex_t1_def ex_eval)
  have 4: "tasks_cancelled ex_t2"
    by (simp add: ex_t2_def ex_t1_def ex_eval)
  have 5: "pending ex_t1 = [ex_item {''user''}]"
    by (simp add: ex_t1_def ex_eval)
  from drained_before_cancel [OF 1 2 3 4] 1 2 3 4 5 show ?thesis by blast
qed

text \<open>
  C4, as the code has it. In every state the service reaches: the background tasks have
  been awaited only if the engine has been disposed of; the engine has been disposed of
  only if the background tasks have been cancelled; and they have been cancelled only if
  the stop signal is set and the delivery queue is drained. So the order is: set the stop
  signal, wait for the queue to drain, cancel the tasks, dispose of the engine, await the
  cancelled tasks.
\<close>

theorem shutdown_order:
  assumes "exec as init_sys = Some s"
  shows "(tasks_awaited s \<longrightarrow> engine_disposed s) \<and>
         (engine_disposed s \<longrightarrow> tasks_cancelled s) \<and>
         (tasks_cancelled s \<longrightarrow>
            stop_signal (globals s) \<and> pending s = [] \<and> unfinished_tasks (globals s) = 0)"
  using exec_shutdown_inv [OF init_shutdown_inv assms]
  unfolding shutdown_inv_def by auto

theorem shutdown_order_witness:
  "exec ex_shutdown init_sys = Some (the (exec ex_shutdown init_sys)) \<and>
   tasks_awaited (the (exec ex_shutdown init_sys)) \<and>
   engine_disposed (the (exec ex_shutdown init_sys)) \<and>
   tasks_cancelled (the (exec ex_shutdown init_sys)) \<and>
   stop_signal (globals (the (exec ex_shutdown init_sys))) \<and>
   pending (the (exec ex_shutdown init_sys)) = []"
proof -
  have 1: "exec ex_shutdown init_sys = Some (the (exec ex_shutdown init_sys))"
    by (simp add: ex_eval)
  have 2: "tasks_awaited (the (exec ex_shutdown init_sys))"
    by (simp add: ex_eval)
  from shutdown_order [OF 1] 1 2 show ?thesis by blast
qed

text \<open>
  C4 as stated fails: after four statements of the shutdown block the engine has been
  disposed of while the cancelled tasks have not been awaited yet.
\<close>

theorem engine_disposed_before_gather:
  "exec [Lifespan, Lifespan, Lifespan, Lifespan] init_sys \<noteq> None \<and>
   engine_disposed (the (exec [Lifespan, Lifespan, Lifespan, Lifespan] init_sys)) \<and>
   \<not> tasks_awaited (the (exec [Lifespan, Lifespan, Lifespan, Lifespan] init_sys))"
  by (simp add: step_def lifespan_step_def init_sys_def init_state_def)

subsection \<open>Ingestion gate\<close>

text \<open>
  C5. A submission made while the stop signal is set changes nothing but the log: the
  delivery queue, its counter, the registry and every subscriber channel are as before.
  A submission made while the stop signal is not set appends the envelope at the tail of
  the delivery queue, counts it as unfinished and writes a debug line; it touches neither
  the registry nor any subscriber channel, so the producer never waits for a delivery.
\<close>

theorem notify_event_gate:
  "(stop_signal s \<longrightarrow>
      notify_event s i = s\<lparr>log := log s @ [IgnoringEvent (conversation_id (item_event i))
         (event (item_event i)) (ev_id (item_event i))]\<rparr>) \<and>
   (\<not> stop_signal s \<longrightarrow>
      notify_event s i = s\<lparr>conversation_event_queue := conversation_event_queue s @ [i],
         unfinished_tasks := Suc (unfinished_tasks s),
         log := log s @ [EventEnqueued (conversation_id (item_event i))
           (event (item_event i)) (ev_id (item_event i))]\<rparr>)"
  by (simp add: notify_event_def Let_def)

theorem notify_event_gate_witness:
  "stop_signal (init_state\<lparr>stop_signal := True\<rparr>) \<and>
   conversation_event_queue (notify_event (init_state\<lparr>stop_signal := True\<rparr>) (ex_item {''user''})) = [] \<and>
   unfinished_tasks (notify_event (init_state\<lparr>stop_signal := True\<rparr>) (ex_item {''user''})) = 0 \<and>
   log (notify_event (init_state\<lparr>stop_signal := True\<rparr>) (ex_item {''user''})) =
     [IgnoringEvent ''c1'' (ConversationEventType ''message.created'') ''e1''] \<and>
   \<not> stop_signal init_state \<and>
   conversation_event_queue (notify_event init_state (ex_item {''user''})) = [ex_item {''user''}] \<and>
   unfinished_tasks (notify_event init_state (ex_item {''user''})) = 1"
proof -
  have 1: "stop_signal (init_state\<lparr>stop_signal := True\<rparr>)" by simp
  have 2: "\<not> stop_signal init_state" by (simp add: init_state_def)
  from notify_event_gate [of "init_state\<lparr>stop_signal := True\<rparr>" "ex_item {''user''}"] 1
  have a: "notify_event (init_state\<lparr>stop_signal := True\<rparr>) (ex_item {''user''}) =
      init_state\<lparr>stop_signal := True,
        log := [IgnoringEvent ''c1'' (ConversationEventType ''message.created'') ''e1'']\<rparr>"
    by (simp add: init_state_def ex_item_def ex_event_def)
  from notify_event_gate [of init_state "ex_item {''user''}"] 2
  have b: "notify_event init_state (ex_item {''user''}) =
      init_state\<lparr>conversation_event_queue := [ex_item {''user''}], unfinished_tasks := 1,
        log := [EventEnqueued ''c1'' (ConversationEventType ''message.created'') ''e1'']\<rparr>"
    by (simp add: init_state_def ex_item_def ex_event_def)
  show ?thesis unfolding a b using 1 2 by (simp add: init_state_def)
qed

subsection \<open>Registry\<close>

text \<open>
  C6. The registration of a session can outlive the session, and with it the entry of the
  conversation. The registration is made by the endpoint, before the generator has run:
  when the stream is ended before the first step of the generator, the \<^verbatim>\<open>try\<close> is never
  entered and the \<^verbatim>\<open>finally\<close> block does not run. And the \<^verbatim>\<open>finally\<close> block has to wait for
  the lock of the registry before the two removals: when the session is cancelled while the
  broadcaster holds the lock, and the cancellation arrives again at that wait, the two
  removals are skipped. In both runs no session is left, and the conversation still has
  its entry with the registration of the session that is gone.
\<close>

theorem registration_outlives_session:
  "exec ex_unstarted init_sys \<noteq> None \<and>
   sessions (the (exec ex_unstarted init_sys)) = [] \<and>
   conversation_sse_queues (globals (the (exec ex_unstarted init_sys))) ''c1'' = Some 1 \<and>
   subscribers (globals (the (exec ex_unstarted init_sys))) ''c1'' = [(''q1'', 0)] \<and>
   exec ex_cancelled init_sys \<noteq> None \<and>
   sessions (the (exec ex_cancelled init_sys)) = [] \<and>
   conversation_sse_queues (globals (the (exec ex_cancelled init_sys))) ''c1'' = Some 1 \<and>
   subscribers (globals (the (exec ex_cancelled init_sys))) ''c1'' = [(''q1'', 0)]"
  by (simp add: ex_eval)

text \<open>
  C10, as the code has it. The two removals of the cleanup have no failing branch: both
  are removals with a default. Running them twice is the same as running them once. When
  the registration of the session is no longer in the dictionary it holds, the cleanup
  leaves every dictionary as it is; it leaves the whole state as it is when that
  dictionary still has other registrations; and when that dictionary is empty it removes
  the entry that the conversation has at that moment. When the conversation has no entry,
  the entries of the registry are left as they are. The removals are reached only through
  the lock of the registry: something thrown into a session that waits for the lock ends
  the session with both removals skipped.
\<close>

theorem finally_removals:
  "event_generator_finally (event_generator_finally s sess) sess = event_generator_finally s sess \<and>
   (queue_id sess \<notin> fst ` set (dict_heap s (queues sess)) \<longrightarrow>
      dict_heap (event_generator_finally s sess) = dict_heap s \<and>
      (dict_heap s (queues sess) \<noteq> [] \<longrightarrow> event_generator_finally s sess = s) \<and>
      (dict_heap s (queues sess) = [] \<longrightarrow>
         conversation_sse_queues (event_generator_finally s sess) =
           (conversation_sse_queues s)(s_conversation_id sess := None))) \<and>
   (conversation_sse_queues s (s_conversation_id sess) = None \<longrightarrow>
      conversation_sse_queues (event_generator_finally s sess) = conversation_sse_queues s) \<and>
   (phase t (event_queue sess) = Cleaning \<longrightarrow>
      session_step t sess Throw = t\<lparr>sessions := filter (\<lambda>x. event_queue x \<noteq> event_queue sess)
        (sessions t)\<rparr>)"
proof -
  have 1: "event_generator_finally (event_generator_finally s sess) sess = event_generator_finally s sess"
    by (simp add: event_generator_finally_def Let_def AList.delete_idem)
  have 2: "dict_heap (event_generator_finally s sess) = dict_heap s"
    if "queue_id sess \<notin> fst ` set (dict_heap s (queues sess))"
    using that by (auto simp add: event_generator_finally_def Let_def fun_eq_iff)
  have 3: "event_generator_finally s sess = s"
    if "queue_id sess \<notin> fst ` set (dict_heap s (queues sess))" "dict_heap s (queues sess) \<noteq> []"
    using that by (simp add: event_generator_finally_def Let_def)
  have 4: "conversation_sse_queues (event_generator_finally s sess) =
      (conversation_sse_queues s)(s_conversation_id sess := None)"
    if "dict_heap s (queues sess) = []"
    using that by (simp add: finally_registry)
  have 5: "conversation_sse_queues (event_generator_finally s sess) = conversation_sse_queues s"
    if "conversation_sse_queues s (s_conversation_id sess) = None"
    using that by (auto simp add: event_generator_finally_def Let_def fun_eq_iff)
  have 6: "session_step t sess Throw =
      t\<lparr>sessions := filter (\<lambda>x. event_queue x \<noteq> event_queue sess) (sessions t)\<rparr>"
    if "phase t (event_queue sess) = Cleaning"
    using that by (simp add: session_step_def end_session_def)
  show ?thesis using 1 2 3 4 5 6 by blast
qed

theorem finally_removals_witness:
  "queue_id ex_stranger \<notin> fst ` set (dict_heap ex_state (queues ex_stranger)) \<and>
   dict_heap ex_state (queues ex_stranger) \<noteq> [] \<and>
   event_generator_finally ex_state ex_stranger = ex_state \<and>
   queue_id ex_session \<notin> fst ` set (dict_heap ex_emptied (queues ex_session)) \<and>
   dict_heap ex_emptied (queues ex_session) = [] \<and>
   conversation_sse_queues (event_generator_finally ex_emptied ex_session) =
     (conversation_sse_queues ex_emptied)(s_conversation_id ex_session := None) \<and>
   conversation_sse_queues ex_left (s_conversation_id ex_session) = None \<and>
   conversation_sse_queues (event_generator_finally ex_left ex_session) =
     conversation_sse_queues ex_left \<and>
   phase ex_locked (event_queue ex_session) = Cleaning \<and>
   sessions ex_locked = [ex_session] \<and>
   sessions (session_step ex_locked ex_session Throw) = [] \<and>
   subscribers (globals (session_step ex_locked ex_session Throw)) ''c1'' = [(''q1'', 0)]"
proof -
  have 1: "queue_id ex_stranger \<notin> fst ` set (dict_heap ex_state (queues ex_stranger))"
    by (simp add: ex_state_eq ex_stranger_def)
  have 2: "dict_heap ex_state (queues ex_stranger) \<noteq> []"
    by (simp add: ex_state_eq ex_stranger_def)
  have 3: "queue_id ex_session \<notin> fst ` set (dict_heap ex_emptied (queues ex_session))"
    by (simp add: ex_emptied_def ex_eval)
  have 4: "dict_heap ex_emptied (queues ex_session) = []"
    by (simp add: ex_emptied_def ex_eval)
  have 5: "conversation_sse_queues ex_left (s_conversation_id ex_session) = None"
    by (simp add: ex_left_def ex_eval)
  have 6: "phase ex_locked (event_queue ex_session) = Cleaning"
    by (simp add: ex_locked_def ex_eval)
  have 7: "sessions ex_locked = [ex_session]"
    by (simp add: ex_locked_def ex_eval)
  have 8: "subscribers (globals ex_locked) ''c1'' = [(''q1'', 0)]"
    by (simp add: ex_locked_def ex_eval)
  from finally_removals [of ex_left ex_session ex_locked] 6 7 8
  have 9: "sessions (session_step ex_locked ex_session Throw) = [] \<and>
      subscribers (globals (session_step ex_locked ex_session Throw)) ''c1'' = [(''q1'', 0)]"
    by (simp add: ex_session_def)
  from finally_removals [of ex_state ex_stranger ex_locked]
    finally_removals [of ex_emptied ex_session ex_locked]
    finally_removals [of ex_left ex_session ex_locked] 1 2 3 4 5 6 7 9
  show ?thesis by blast
qed

text \<open>
  C10 as stated fails: an unregister after an external removal can change the registry.
  When the registration of the session has been removed from the dictionary it holds and
  that dictionary is left empty, the cleanup removes the entry of the conversation. And
  when the entry of the conversation has been removed and a second client has connected
  since, the cleanup of the first session empties the dictionary it still holds and then
  removes the entry of the conversation, which is the one of the second client: the
  broadcaster no longer finds that subscriber.
\<close>

theorem cleanup_after_removal_changes_registry:
  "queue_id ex_session \<notin> fst ` set (dict_heap ex_emptied (queues ex_session)) \<and>
   conversation_sse_queues ex_emptied ''c1'' = Some 1 \<and>
   conversation_sse_queues (event_generator_finally ex_emptied ex_session) ''c1'' = None \<and>
   conversation_sse_queues ex_reentered ''c1'' = Some 3 \<and>
   dict_heap ex_reentered (queues ex_session) = [(''q1'', 0)] \<and>
   subscribers ex_reentered ''c1'' = [(''q2'', 2)] \<and>
   conversation_sse_queues (event_generator_finally ex_reentered ex_session) ''c1'' = None \<and>
   subscribers (event_generator_finally ex_reentered ex_session) ''c1'' = []"
  by (simp add: ex_emptied_def ex_reentered_def ex_eval)

subsection \<open>Broadcaster\<close>

text \<open>
  C7. The tasks of a fan-out are, in this order, one call of the assistant forwarder when
  the audience contains \<^verbatim>\<open>"assistant"\<close>, and one append per registration of the conversation
  of the event when the audience contains \<^verbatim>\<open>"user"\<close>; nothing else. For a conversation
  without subscribers the lookup raises nothing and adds no task: the iteration raises
  only when the forwarder is called and raises, and an item for users only is finished
  and dropped, the state being as before but for the counter of the delivery queue.
\<close>

theorem fan_out_from_audience:
  "fst (create_tasks s i) =
     (if ''assistant'' \<in> event_audience i then [ForwardEventToAssistants (item_event i)] else []) @
     (if ''user'' \<in> event_audience i
      then map (\<lambda>q. QueuePut q (item_event i))
             (map snd (subscribers s (conversation_id (item_event i))))
      else []) \<and>
   (subscribers s (conversation_id (item_event i)) = [] \<and> 0 < unfinished_tasks s \<longrightarrow>
      (fst (broadcast_body f s i) = None \<longleftrightarrow>
         \<not> (''assistant'' \<in> event_audience i \<and> snd f = Raises)) \<and>
      (''assistant'' \<notin> event_audience i \<longrightarrow>
         broadcast_dispatch f s i = s\<lparr>unfinished_tasks := unfinished_tasks s - 1\<rparr>))"
proof -
  have 1: "fst (create_tasks s i) =
     (if ''assistant'' \<in> event_audience i then [ForwardEventToAssistants (item_event i)] else []) @
     (if ''user'' \<in> event_audience i
      then map (\<lambda>q. QueuePut q (item_event i))
             (map snd (subscribers s (conversation_id (item_event i))))
      else [])"
    by (simp add: create_tasks_def Let_def case_prod_beta)
  have 2: "fst (broadcast_body f s i) = None \<longleftrightarrow>
         \<not> (''assistant'' \<in> event_audience i \<and> snd f = Raises)"
    if "subscribers s (conversation_id (item_event i)) = []" "0 < unfinished_tasks s"
    using that
    by (simp add: broadcast_body_def fan_out_eq task_done_def task_group_exit_def targets_def)
  have 3: "broadcast_dispatch f s i = s\<lparr>unfinished_tasks := unfinished_tasks s - 1\<rparr>"
    if "subscribers s (conversation_id (item_event i)) = []" "0 < unfinished_tasks s"
       "''assistant'' \<notin> event_audience i"
    using that
    by (simp add: broadcast_dispatch_def broadcast_body_def fan_out_eq task_done_def
        task_group_exit_def targets_def create_tasks_def)
  show ?thesis using 1 2 3 by blast
qed

theorem fan_out_from_audience_witness:
  "subscribers ex_lonely (conversation_id (item_event (ex_item {''user''}))) = [] \<and>
   0 < unfinished_tasks ex_lonely \<and> ''assistant'' \<notin> event_audience (ex_item {''user''}) \<and>
   fst (create_tasks ex_lonely (ex_item {''user''})) = [] \<and>
   fst (broadcast_body (0, Raises) ex_lonely (ex_item {''user''})) = None \<and>
   broadcast_dispatch (0, Raises) ex_lonely (ex_item {''user''}) =
     ex_lonely\<lparr>unfinished_tasks := unfinished_tasks ex_lonely - 1\<rparr> \<and>
   fst (create_tasks ex_state (ex_item {''assistant'', ''user''})) =
     [ForwardEventToAssistants ex_event, QueuePut 0 ex_event, QueuePut 2 ex_event]"
proof -
  have 1: "subscribers ex_lonely (conversation_id (item_event (ex_item {''user''}))) = []"
    by (simp add: ex_lonely_def ex_eval)
  have 2: "0 < unfinished_tasks ex_lonely"
    by (simp add: ex_lonely_def ex_eval)
  have 3: "''assistant'' \<notin> event_audience (ex_item {''user''})"
    by (simp add: ex_item_def)
  have 4: "''user'' \<in> event_audience (ex_item {''user''})"
    by (simp add: ex_item_def)
  have 5: "fst (create_tasks ex_state (ex_item {''assistant'', ''user''})) =
     [ForwardEventToAssistants ex_event, QueuePut 0 ex_event, QueuePut 2 ex_event]"
    using fan_out_from_audience [of ex_state "ex_item {''assistant'', ''user''}" "(0, Raises)"]
    by (simp add: ex_subscribers ex_item_def ex_event_def)
  from fan_out_from_audience [of ex_lonely "ex_item {''user''}" "(0, Raises)"] 1 2 3 4 5
  show ?thesis by simp
qed

text \<open>
  C9. Finishing an item leaves the registry as it is: the entries of
  \<^verbatim>\<open>conversation_sse_queues\<close>, every inner dictionary, the allocation counter, and what the
  lookup without insertion returns for every conversation. In particular no entry appears
  for a conversation that had none.
\<close>

theorem dispatch_keeps_registry:
  "conversation_sse_queues (broadcast_dispatch f s i) = conversation_sse_queues s \<and>
   dict_heap (broadcast_dispatch f s i) = dict_heap s \<and>
   next_addr (broadcast_dispatch f s i) = next_addr s \<and>
   subscribers (broadcast_dispatch f s i) = subscribers s"
proof -
  have "conversation_sse_queues (broadcast_dispatch f s i) = conversation_sse_queues s \<and>
   dict_heap (broadcast_dispatch f s i) = dict_heap s \<and>
   next_addr (broadcast_dispatch f s i) = next_addr s"
    by (simp add: broadcast_dispatch_def broadcast_body_def fan_out_eq task_done_def
        split: option.splits)
  then show ?thesis by (auto simp add: subscribers_def fun_eq_iff split: option.splits)
qed

theorem dispatch_keeps_registry_witness:
  "conversation_sse_queues (broadcast_dispatch (1, Raises) ex_lonely (ex_item {''user''})) ''c1'' =
     None \<and>
   subscribers (broadcast_dispatch (1, Raises) ex_state (ex_item {''assistant'', ''user''})) ''c1'' =
     [(''q1'', 0), (''q2'', 2)]"
proof -
  have 1: "conversation_sse_queues ex_lonely ''c1'' = None"
    by (simp add: ex_lonely_def ex_eval)
  from dispatch_keeps_registry [of "(1, Raises)" ex_lonely "ex_item {''user''}"]
    dispatch_keeps_registry [of "(1, Raises)" ex_state "ex_item {''assistant'', ''user''}"]
    1 ex_subscribers
  show ?thesis by simp
qed

subsection \<open>Wire records\<close>

text \<open>
  C8. The record made from an event carries the id of the event, the value of its kind as
  the event field, the JSON object of its timestamp and its payload and of nothing else as
  the data field, and a retry interval of 1000. A turn of the session loop that yields a
  record yields the record of the head of the private channel and takes that head off
  the channel.
\<close>

theorem wire_record:
  "to_server_sent_event e =
     \<lparr>sse_id = ev_id e, sse_event = val (event e),
      sse_data = ''{'' @ quoted ''timestamp'' @ '':'' @ quoted (timestamp e) @ '','' @
                 quoted ''data'' @ '':'' @ data e @ ''}'',
      sse_retry = 1000\<rparr> \<and>
   (session_iteration s sess inp = (Yield r, s') \<longrightarrow>
      queue_heap s (event_queue sess) \<noteq> [] \<and>
      r = to_server_sent_event (hd (queue_heap s (event_queue sess))) \<and>
      queue_heap s' (event_queue sess) = tl (queue_heap s (event_queue sess)))"
proof -
  have 1: "to_server_sent_event e =
     \<lparr>sse_id = ev_id e, sse_event = val (event e),
      sse_data = ''{'' @ quoted ''timestamp'' @ '':'' @ quoted (timestamp e) @ '','' @
                 quoted ''data'' @ '':'' @ data e @ ''}'',
      sse_retry = 1000\<rparr>"
    by (simp add: to_server_sent_event_def model_dump_json_def model_fields_def)
  have 2: "queue_heap s (event_queue sess) \<noteq> [] \<and>
      r = to_server_sent_event (hd (queue_heap s (event_queue sess))) \<and>
      queue_heap s' (event_queue sess) = tl (queue_heap s (event_queue sess))"
    if "session_iteration s sess inp = (Yield r, s')"
    using that
    by (auto simp add: session_iteration_def loop_turn_def Let_def
        split: session_input.splits if_splits list.splits option.splits fault.splits)
  show ?thesis using 1 2 by blast
qed

theorem wire_record_witness:
  "session_iteration ex_waiting ex_session (Poll Connected) =
     (Yield (to_server_sent_event ex_event),
      snd (session_iteration ex_waiting ex_session (Poll Connected))) \<and>
   queue_heap ex_waiting (event_queue ex_session) \<noteq> [] \<and>
   to_server_sent_event ex_event = to_server_sent_event (hd (queue_heap ex_waiting (event_queue ex_session))) \<and>
   queue_heap (snd (session_iteration ex_waiting ex_session (Poll Connected)))
     (event_queue ex_session) = tl (queue_heap ex_waiting (event_queue ex_session)) \<and>
   sse_data (to_server_sent_event ex_event) =
     ''{'' @ quoted ''timestamp'' @ '':'' @ quoted ''2024-01-01T00:00:00Z'' @ '','' @
     quoted ''data'' @ '':{}}''"
proof -
  have 1: "session_iteration ex_waiting ex_session (Poll Connected) =
     (Yield (to_server_sent_event ex_event),
      snd (session_iteration ex_waiting ex_session (Poll Connected)))"
    by (simp add: session_iteration_def loop_turn_def ex_waiting_def ex_session_def
        init_state_def Let_def)
  have 2: "sse_data (to_server_sent_event ex_event) =
     ''{'' @ quoted ''timestamp'' @ '':'' @ quoted ''2024-01-01T00:00:00Z'' @ '','' @
     quoted ''data'' @ '':{}}''"
    using wire_record [of ex_event ex_waiting ex_session "Poll Connected"
        "to_server_sent_event ex_event"
        "snd (session_iteration ex_waiting ex_session (Poll Connected))"]
    by (simp add: ex_event_def)
  from wire_record [of ex_event ex_waiting ex_session "Poll Connected"
        "to_server_sent_event ex_event"
        "snd (session_iteration ex_waiting ex_session (Poll Connected))"] 1 2
  show ?thesis by blast
qed

end
